theory Spec2Isabelle
  imports Main "HOL-Library.Product_Lexorder" "HOL-Library.AList" "HOL-Library.Monad_Syntax"
begin

section \<open>Data model of the compute graph\<close>

text \<open>
  Objects live in three stores, one per class, addressed by natural numbers; a C++ pointer
  is an \<open>nat option\<close> (\<open>None\<close> is \<open>nullptr\<close>). An address outside the domain of a
  store is a deleted or never allocated object.
\<close>

text \<open>
  A use of a value: \<open>use.getUser()\<close> is the consuming operator. The class is declared in a
  header that is not part of the sources; only its accessor \<open>getUser\<close> is called.
\<close>

datatype use = Use (getUser: nat)

text \<open>
  Modelled from the spec: the members of \<open>ComputeOperator\<close> (its header is absent). Section 3
  gives a node an ordered list of input slots, an ordered list of output slots, the links
  \<open>prev\<close>/\<open>next\<close> of the global sequence and the heads of its fan-in and fan-out chains.
  The slot lists hold addresses of values.
\<close>

record operator =
  prev :: "nat option"
  nxt :: "nat option"
  first_in :: "nat option"
  first_out :: "nat option"
  m_Inputs :: "nat list"
  m_Outputs :: "nat list"

text \<open>The arc class \<open>ComputeOperand\<close>, with the fields \<open>erase\<close> reads and writes.\<close>

record operand =
  prev_in :: "nat option"
  next_in :: "nat option"
  prev_out :: "nat option"
  next_out :: "nat option"
  source :: nat
  target :: nat

text \<open>A value: its name, its defining operator and the list of its uses.\<close>

record val =
  getName :: string
  getDefine :: "nat option"
  getUses :: "use list"

record graph =
  m_pNodeHead :: "nat option"
  m_pNodeRear :: "nat option"
  m_NodeList :: "nat set"
  m_ArcList :: "nat list"
  m_ValueList :: "string \<rightharpoonup> nat"
  node_store :: "nat \<rightharpoonup> operator"
  arc_store :: "nat \<rightharpoonup> operand"
  value_store :: "nat \<rightharpoonup> val"

definition getNumOfInputs :: "operator \<Rightarrow> int" where
  "getNumOfInputs nd = int (length (m_Inputs nd))"

section \<open>Sequential traversal\<close>

text \<open>
  \<open>for (it = begin(); it != end(); ++it)\<close>: start at \<open>m_pNodeHead\<close>, follow \<open>next\<close>, stop at
  \<open>nullptr\<close>. The walk does not return when the chain of \<open>next\<close> links is cyclic, and reading
  a deleted node is undefined behaviour; both are the value \<open>None\<close>.
\<close>

partial_function (option) traverse :: "graph \<Rightarrow> nat option \<Rightarrow> nat list option" where
  "traverse g p =
     (case p of
        None \<Rightarrow> Some []
      | Some n \<Rightarrow>
          (case node_store g n of
             None \<Rightarrow> None
           | Some nd \<Rightarrow> Option.bind (traverse g (nxt nd)) (\<lambda>r. Some (n # r))))"

declare traverse.simps [code]

definition begin_to_end :: "graph \<Rightarrow> nat list option" where
  "begin_to_end g = traverse g (m_pNodeHead g)"

section \<open>topologicalSort\<close>

text \<open>
  The two \<open>std::unordered_map<Node*, int>\<close> are association lists. \<open>m[k]\<close> on an absent key
  inserts the value \<open>0\<close> and returns it, so a read is a lookup with default \<open>0\<close>. The C++
  \<open>int\<close> is modelled by the unbounded integers: the counters stay within the number of
  input slots and of uses of the graph.
\<close>

definition at :: "(nat \<times> int) list \<Rightarrow> nat \<Rightarrow> int" where
  "at m k = (case map_of m k of None \<Rightarrow> 0 | Some v \<Rightarrow> v)"

text \<open>
  The priority queue of pairs \<open>(index, node)\<close> under \<open>std::greater\<close>: \<open>top\<close> is the least pair
  in the lexicographic order, \<open>pop\<close> removes it.
\<close>

fun top :: "(int \<times> nat) list \<Rightarrow> int \<times> nat" where
  "top (x # xs) = fold min xs x"

definition pop :: "(int \<times> nat) list \<Rightarrow> (int \<times> nat) list" where
  "pop q = remove1 (top q) q"

text \<open>The loop of lines 216 to 223, on the state (in_degree, orig_index, queue, index).\<close>

type_synonym sort_state = "(nat \<times> int) list \<times> (nat \<times> int) list \<times> (int \<times> nat) list \<times> int"

definition record_node :: "nat \<Rightarrow> operator \<Rightarrow> sort_state \<Rightarrow> sort_state" where
  "record_node n nd s =
     (case s of (in_degree, orig_index, queue, index) \<Rightarrow>
        let in_degree' = AList.update n (getNumOfInputs nd) in_degree;
            orig_index' = AList.update n index orig_index;
            queue' = (if at in_degree' n = 0 then queue @ [(index, n)] else queue)
        in (in_degree', orig_index', queue', index + 1))"

partial_function (option) record_nodes :: "graph \<Rightarrow> nat option \<Rightarrow> sort_state \<Rightarrow> sort_state option" where
  "record_nodes g nodeIter s =
     (case nodeIter of
        None \<Rightarrow> Some s
      | Some n \<Rightarrow>
          (case node_store g n of
             None \<Rightarrow> None
           | Some nd \<Rightarrow> record_nodes g (nxt nd) (record_node n nd s)))"

declare record_nodes.simps [code]

text \<open>
  The uses met by the two inner loops of lines 229 to 237 for one node, in order: the uses
  of output 0, then of output 1, and so on. Reading a deleted node or value is \<open>None\<close>.
\<close>

definition uses_of_outputs :: "graph \<Rightarrow> nat \<Rightarrow> use list option" where
  "uses_of_outputs g n =
     (case node_store g n of
        None \<Rightarrow> None
      | Some nd \<Rightarrow>
          map_option concat
            (those (map (\<lambda>v. map_option getUses (value_store g v)) (m_Outputs nd))))"

text \<open>The body of the innermost loop, lines 231 to 235.\<close>

definition visit_use ::
  "(nat \<times> int) list \<Rightarrow> use \<Rightarrow> (nat \<times> int) list \<times> (int \<times> nat) list
     \<Rightarrow> (nat \<times> int) list \<times> (int \<times> nat) list" where
  "visit_use orig_index u s =
     (case s of (in_degree, queue) \<Rightarrow>
        let n = getUser u;
            in_degree' = AList.update n (at in_degree n - 1) in_degree
        in (in_degree',
            if at in_degree' n = 0 then queue @ [(at orig_index n, n)] else queue))"

text \<open>The measure of the extraction loop: counters still positive, and queued pairs.\<close>

definition pending :: "(nat \<times> int) list \<Rightarrow> nat" where
  "pending in_degree = length (filter (\<lambda>kv. 0 < snd kv) in_degree)"

lemma pending_update_le:
  "v \<le> at m k \<Longrightarrow> pending (AList.update k v m) \<le> (if 0 < v \<and> map_of m k = None then Suc (pending m) else pending m)"
  by (induction m) (auto simp: pending_def at_def)

lemma pending_update_zero:
  "at m k = 1 \<Longrightarrow> Suc (pending (AList.update k 0 m)) = pending m"
  by (induction m) (auto simp: pending_def at_def split: option.splits)

lemma at_update: "at (AList.update k v m) k' = (if k' = k then v else at m k')"
  by (simp add: at_def update_conv')

lemma visit_use_measure:
  "visit_use oi u (d, q) = (d', q') \<Longrightarrow> 2 * pending d' + length q' \<le> 2 * pending d + length q"
proof -
  assume a: "visit_use oi u (d, q) = (d', q')"
  let ?n = "getUser u"
  have d': "d' = AList.update ?n (at d ?n - 1) d"
    using a by (simp add: visit_use_def Let_def)
  show ?thesis
  proof (cases "at d ?n = 1")
    case True
    then have "Suc (pending d') = pending d"
      using pending_update_zero [of d ?n] d' by simp
    moreover have "length q' \<le> Suc (length q)"
      using a by (auto simp: visit_use_def Let_def split: if_splits)
    ultimately show ?thesis by linarith
  next
    case False
    then have "q' = q"
      using a by (auto simp: visit_use_def Let_def at_update split: if_splits)
    moreover have "pending d' \<le> pending d"
      using pending_update_le [of "at d ?n - 1" d ?n] d'
      by (auto simp: at_def split: option.splits if_splits)
    ultimately show ?thesis by simp
  qed
qed

lemma fold_visit_use_measure:
  "fold (visit_use oi) us (d, q) = (d', q') \<Longrightarrow> 2 * pending d' + length q' \<le> 2 * pending d + length q"
proof (induction us arbitrary: d q)
  case Nil
  then show ?case by simp
next
  case (Cons u us)
  obtain d1 q1 where s: "visit_use oi u (d, q) = (d1, q1)"
    by (cases "visit_use oi u (d, q)")
  from Cons.prems s have "fold (visit_use oi) us (d1, q1) = (d', q')" by simp
  from Cons.IH [OF this] visit_use_measure [OF s] show ?case by linarith
qed

lemma top_in_set: "q \<noteq> [] \<Longrightarrow> top q \<in> set q"
proof (cases q)
  case Nil
  then show "q \<noteq> [] \<Longrightarrow> top q \<in> set q" by simp
next
  case (Cons x xs)
  have "fold min ys y \<in> set (y # ys)" for y :: "int \<times> nat" and ys
    by (induction ys arbitrary: y) (auto simp: min_def)
  with Cons show ?thesis by simp
qed

lemma length_pop: "q \<noteq> [] \<Longrightarrow> Suc (length (pop q)) = length q"
proof -
  assume ne: "q \<noteq> []"
  then have "0 < length q" by simp
  moreover have "length (pop q) = length q - 1"
    using top_in_set [OF ne] by (simp add: pop_def length_remove1)
  ultimately show ?thesis by simp
qed

text \<open>
  The extraction loop of lines 226 to 239. It returns the map \<open>in_degree\<close> and the vector
  \<open>nodes\<close> as they are when the queue is empty.
\<close>

function schedule_loop ::
  "graph \<Rightarrow> (nat \<times> int) list \<Rightarrow> (nat \<times> int) list \<Rightarrow> (int \<times> nat) list \<Rightarrow> nat list
     \<Rightarrow> ((nat \<times> int) list \<times> nat list) option" where
  "schedule_loop g orig_index in_degree queue nodes =
     (if queue = [] then Some (in_degree, nodes)
      else
        (case uses_of_outputs g (snd (top queue)) of
           None \<Rightarrow> None
         | Some us \<Rightarrow>
             (case fold (visit_use orig_index) us (in_degree, pop queue) of
                (in_degree', queue') \<Rightarrow>
                  schedule_loop g orig_index in_degree' queue' (nodes @ [snd (top queue)]))))"
  by pat_completeness auto
termination
proof (relation "measure (\<lambda>(g, oi, d, q, ns). 2 * pending d + length q)", goal_cases)
  case 1
  show ?case by simp
next
  case (2 g oi d q ns us d' q')
  from 2(3) [symmetric] have "fold (visit_use oi) us (d, pop q) = (d', q')" by simp
  from fold_visit_use_measure [OF this] length_pop [OF 2(1)]
  show ?case by simp
qed

text \<open>The loop of lines 241 to 244: \<open>nodes[i]->prev\<close> and \<open>nodes[i]->next\<close> are rewritten.\<close>

definition relink_node :: "nat list \<Rightarrow> nat \<Rightarrow> graph \<Rightarrow> graph option" where
  "relink_node nodes i g =
     (case node_store g (nodes ! i) of
        None \<Rightarrow> None
      | Some nd \<Rightarrow>
          Some (g\<lparr>node_store := (node_store g)(nodes ! i \<mapsto>
                  nd\<lparr>prev := (if 0 < i then Some (nodes ! (i - 1)) else None),
                     nxt := (if i < length nodes - 1 then Some (nodes ! (i + 1)) else None)\<rparr>)\<rparr>))"

definition relink :: "nat list \<Rightarrow> graph \<Rightarrow> graph option" where
  "relink nodes g = fold (\<lambda>i r. Option.bind r (relink_node nodes i)) [0..<length nodes] (Some g)"

text \<open>The vector \<open>nodes\<close> at line 240 (the output sequence), and the whole function.\<close>

definition schedule :: "graph \<Rightarrow> ((nat \<times> int) list \<times> nat list) option" where
  "schedule g =
     Option.bind (record_nodes g (m_pNodeHead g) ([], [], [], 0))
       (\<lambda>(in_degree, orig_index, queue, index). schedule_loop g orig_index in_degree queue [])"

definition topologicalSort :: "graph \<Rightarrow> graph option" where
  "topologicalSort g = Option.bind (schedule g) (\<lambda>(in_degree, nodes). relink nodes g)"


section \<open>erase(Value)\<close>

text \<open>
  A call returns, or stops at a failed \<open>assert\<close>, or has undefined behaviour (it reads a
  deleted object). \<open>assert\<close> is the macro of \<open><cassert>\<close>: it checks its condition unless
  the translation unit is compiled with \<open>NDEBUG\<close>, where it expands to nothing.
\<close>

datatype 'a outcome = Returns 'a | AssertionFailed string | Undefined

definition erase_value :: "bool \<Rightarrow> graph \<Rightarrow> nat \<Rightarrow> graph outcome" where
  "erase_value ndebug g v =
     (case value_store g v of
        None \<Rightarrow> Undefined
      | Some pVal \<Rightarrow>
          if \<not> ndebug \<and> getDefine pVal \<noteq> None then AssertionFailed ''Define still exist.''
          else if \<not> ndebug \<and> getUses pVal \<noteq> [] then AssertionFailed ''User list is not empty.''
          else Returns (g\<lparr>m_ValueList := (m_ValueList g)(getName pVal := None),
                          value_store := (value_store g)(v := None)\<rparr>))"

section \<open>Example graphs\<close>

definition mk_node :: "nat option \<Rightarrow> nat option \<Rightarrow> nat list \<Rightarrow> nat list \<Rightarrow> operator" where
  "mk_node p n ins outs =
     \<lparr>prev = p, nxt = n, first_in = None, first_out = None, m_Inputs = ins, m_Outputs = outs\<rparr>"

text \<open>
  Two operators in the order \<open>1, 2\<close>; operator \<open>2\<close> defines the value \<open>11\<close> and operator \<open>1\<close>
  reads it, so the sequence is not yet in dependency order.
\<close>

definition consumer_first :: graph where
  "consumer_first =
     \<lparr>m_pNodeHead = Some 1, m_pNodeRear = Some 2, m_NodeList = {1, 2}, m_ArcList = [],
      m_ValueList = map_of [(''b'', 11)],
      node_store = map_of [(1, mk_node None (Some 2) [11] []), (2, mk_node (Some 1) None [] [11])],
      arc_store = Map.empty,
      value_store = map_of [(11, \<lparr>getName = ''b'', getDefine = Some 2, getUses = [Use 1]\<rparr>)]\<rparr>"

text \<open>
  The scenario of the specification: \<open>A\<close>, \<open>B\<close>, \<open>C\<close> in this order, at the addresses
  \<open>30\<close>, \<open>20\<close>, \<open>10\<close>; \<open>C\<close> reads the value \<open>2\<close> of \<open>B\<close> and the value \<open>1\<close> of \<open>A\<close>.
\<close>

definition fan_in_abc :: graph where
  "fan_in_abc =
     \<lparr>m_pNodeHead = Some 30, m_pNodeRear = Some 10, m_NodeList = {30, 20, 10}, m_ArcList = [],
      m_ValueList = map_of [(''a'', 1), (''b'', 2)],
      node_store = map_of [(30, mk_node None (Some 20) [] [1]),
                           (20, mk_node (Some 30) (Some 10) [] [2]),
                           (10, mk_node (Some 20) None [2, 1] [])],
      arc_store = Map.empty,
      value_store = map_of [(1, \<lparr>getName = ''a'', getDefine = Some 30, getUses = [Use 10]\<rparr>),
                            (2, \<lparr>getName = ''b'', getDefine = Some 20, getUses = [Use 10]\<rparr>)]\<rparr>"

text \<open>Operators \<open>1\<close> and \<open>2\<close> read each other's output; operator \<open>3\<close> is isolated.\<close>

definition two_cycle :: graph where
  "two_cycle =
     \<lparr>m_pNodeHead = Some 1, m_pNodeRear = Some 3, m_NodeList = {1, 2, 3}, m_ArcList = [],
      m_ValueList = map_of [(''x'', 10), (''y'', 11)],
      node_store = map_of [(1, mk_node None (Some 2) [11] [10]),
                           (2, mk_node (Some 1) (Some 3) [10] [11]),
                           (3, mk_node (Some 2) None [] [])],
      arc_store = Map.empty,
      value_store = map_of [(10, \<lparr>getName = ''x'', getDefine = Some 1, getUses = [Use 2]\<rparr>),
                            (11, \<lparr>getName = ''y'', getDefine = Some 2, getUses = [Use 1]\<rparr>)]\<rparr>"


section \<open>Correctness of the scheduler\<close>

text \<open>
  The edges the scheduler follows: \<open>users g n\<close> lists, in the order of the two inner loops,
  the user of every use of every output of \<open>n\<close>.
\<close>

definition users :: "graph \<Rightarrow> nat \<Rightarrow> nat list" where
  "users g n = (case uses_of_outputs g n of None \<Rightarrow> [] | Some us \<Rightarrow> map getUser us)"

lemma top_Min: "q \<noteq> [] \<Longrightarrow> top q = Min (set q)"
proof (cases q)
  case Nil
  then show "q \<noteq> [] \<Longrightarrow> top q = Min (set q)" by simp
next
  case (Cons x xs)
  then show ?thesis using Min.set_eq_fold [of x xs] by simp
qed

lemma top_le: "x \<in> set q \<Longrightarrow> top q \<le> x"
  using top_Min [of q] by (cases q) auto

lemma visit_use_at:
  "visit_use oi u (d, q) = (d', q') \<Longrightarrow>
     at d' m = (if m = getUser u then at d m - 1 else at d m) \<and>
     q' = (if at d (getUser u) = 1 then q @ [(at oi (getUser u), getUser u)] else q)"
  by (auto simp: visit_use_def Let_def at_update)

lemma fold_visit_use:
  "fold (visit_use oi) us (d, q) = (d', q') \<Longrightarrow>
     (\<forall>m. at d' m = at d m - int (count_list (map getUser us) m)) \<and>
     (\<exists>new. q' = q @ map (\<lambda>m. (at oi m, m)) new \<and> distinct new \<and>
        set new = {m. 0 < at d m \<and> at d m \<le> int (count_list (map getUser us) m)})"
proof (induction us arbitrary: d q)
  case Nil
  then show ?case by auto
next
  case (Cons u us)
  let ?n = "getUser u"
  obtain d1 q1 where s: "visit_use oi u (d, q) = (d1, q1)"
    by (cases "visit_use oi u (d, q)")
  have d1: "at d1 m = (if m = ?n then at d m - 1 else at d m)" for m
    using visit_use_at [OF s] by simp
  have q1: "q1 = (if at d ?n = 1 then q @ [(at oi ?n, ?n)] else q)"
    using visit_use_at [OF s] by simp
  from Cons.prems s have f: "fold (visit_use oi) us (d1, q1) = (d', q')" by simp
  from Cons.IH [OF f] obtain new where
    a: "\<forall>m. at d' m = at d1 m - int (count_list (map getUser us) m)" and
    b: "q' = q1 @ map (\<lambda>m. (at oi m, m)) new" and
    c: "distinct new" and
    e: "set new = {m. 0 < at d1 m \<and> at d1 m \<le> int (count_list (map getUser us) m)}"
    by blast
  have 1: "\<forall>m. at d' m = at d m - int (count_list (map getUser (u # us)) m)"
    using a d1 by auto
  let ?new = "(if at d ?n = 1 then [?n] else []) @ new"
  have 2: "q' = q @ map (\<lambda>m. (at oi m, m)) ?new"
    using b q1 by simp
  have 3: "distinct ?new"
    using c e d1 by auto
  have 4: "set ?new = {m. 0 < at d m \<and> at d m \<le> int (count_list (map getUser (u # us)) m)}"
    using e d1 by (auto split: if_splits)
  from 1 2 3 4 show ?case by blast
qed


text \<open>
  \<open>remaining g ns sched m\<close> counts the edges into \<open>m\<close> from nodes of the sequence that are
  not yet scheduled; \<open>precedes u v xs\<close> says that \<open>u\<close> stands before \<open>v\<close> in \<open>xs\<close>;
  \<open>ready g ns sched m\<close> says that every producer of \<open>m\<close> is scheduled.
\<close>

definition remaining :: "graph \<Rightarrow> nat list \<Rightarrow> nat list \<Rightarrow> nat \<Rightarrow> nat" where
  "remaining g ns sched m = (\<Sum>u\<in>set ns - set sched. count_list (users g u) m)"

definition precedes :: "nat \<Rightarrow> nat \<Rightarrow> nat list \<Rightarrow> bool" where
  "precedes u v xs \<longleftrightarrow> (\<exists>as bs. xs = as @ v # bs \<and> u \<in> set as)"

definition ready :: "graph \<Rightarrow> nat list \<Rightarrow> nat list \<Rightarrow> nat \<Rightarrow> bool" where
  "ready g ns sched m \<longleftrightarrow> (\<forall>u\<in>set ns. m \<in> set (users g u) \<longrightarrow> u \<in> set sched)"

text \<open>
  The invariant of the extraction loop, for the sequence \<open>ns\<close>, the map \<open>orig_index\<close>
  (\<open>oi\<close>), the map \<open>in_degree\<close> (\<open>d\<close>), the queue \<open>q\<close> and the vector \<open>nodes\<close>
  (\<open>out\<close>).
\<close>

definition kahn_inv ::
  "graph \<Rightarrow> nat list \<Rightarrow> (nat \<times> int) list \<Rightarrow> (nat \<times> int) list \<Rightarrow> (int \<times> nat) list \<Rightarrow> nat list \<Rightarrow> bool" where
  "kahn_inv g ns oi d q out \<longleftrightarrow>
     distinct ns \<and> (\<forall>n\<in>set ns. uses_of_outputs g n \<noteq> None) \<and> inj_on (at oi) (set ns) \<and>
     distinct out \<and> distinct (map snd q) \<and> set out \<inter> snd ` set q = {} \<and>
     set out \<subseteq> set ns \<and> snd ` set q \<subseteq> set ns \<and>
     (\<forall>m\<in>set ns. at d m = int (remaining g ns out m)) \<and>
     (\<forall>m. m \<notin> set ns \<longrightarrow> at d m \<le> 0) \<and>
     (\<forall>m\<in>set ns. (m \<in> set out \<or> m \<in> snd ` set q) \<longleftrightarrow> at d m = 0) \<and>
     (\<forall>x\<in>set q. fst x = at oi (snd x)) \<and>
     (\<forall>v\<in>set out. \<forall>u\<in>set ns. v \<in> set (users g u) \<longrightarrow> precedes u v out) \<and>
     (\<forall>as x bs. out = as @ x # bs \<longrightarrow>
        (\<forall>m\<in>set ns. m \<notin> set as \<and> m \<noteq> x \<and> ready g ns as m \<longrightarrow> at oi x < at oi m))"

lemma ready_remaining: "ready g ns sched m \<longleftrightarrow> remaining g ns sched m = 0"
  by (auto simp: ready_def remaining_def count_list_0_iff)

lemma remaining_snoc:
  assumes "n \<in> set ns" "n \<notin> set sched"
  shows "remaining g ns (sched @ [n]) m + count_list (users g n) m = remaining g ns sched m"
proof -
  have "set ns - set (sched @ [n]) = (set ns - set sched) - {n}" by auto
  moreover have "n \<in> set ns - set sched" using assms by simp
  ultimately show ?thesis
    unfolding remaining_def by (simp add: sum.remove [where x = n])
qed

lemma map_snd_remove1:
  "distinct (map snd q) \<Longrightarrow> x \<in> set q \<Longrightarrow> map snd (remove1 x q) = remove1 (snd x) (map snd q)"
proof (induction q)
  case Nil
  then show ?case by simp
next
  case (Cons y ys)
  show ?case
  proof (cases "x = y")
    case True
    then show ?thesis by simp
  next
    case False
    with Cons.prems have "x \<in> set ys" by simp
    then have "snd x \<in> snd ` set ys" by (rule imageI)
    moreover from Cons.prems(1) have "snd y \<notin> snd ` set ys" by simp
    ultimately have "snd x \<noteq> snd y" by metis
    with False Cons show ?thesis by simp
  qed
qed

lemma precedes_snoc: "precedes u v xs \<Longrightarrow> precedes u v (xs @ [n])"
  unfolding precedes_def by (metis append_Cons append_assoc)

lemma precedes_last: "u \<in> set xs \<Longrightarrow> precedes u n (xs @ [n])"
  unfolding precedes_def by blast

lemma snoc_split:
  assumes "out @ [n] = as @ x # bs"
  shows "(bs = [] \<and> as = out \<and> x = n) \<or> (\<exists>bs'. bs = bs' @ [n] \<and> out = as @ x # bs')"
proof (cases bs rule: rev_cases)
  case Nil
  with assms show ?thesis by simp
next
  case (snoc bs' b)
  with assms have "out @ [n] = (as @ x # bs') @ [b]" by simp
  then have "out = as @ x # bs' \<and> n = b" by (simp only: append1_eq_conv)
  with snoc show ?thesis by simp
qed

lemma kahn_step:
  assumes inv: "kahn_inv g ns oi d q out"
    and ne: "q \<noteq> []"
    and us: "uses_of_outputs g (snd (top q)) = Some us"
    and f: "fold (visit_use oi) us (d, pop q) = (d', q')"
  shows "kahn_inv g ns oi d' q' (out @ [snd (top q)])"
proof -
  let ?n = "snd (top q)"
  have dns: "distinct ns" and inj: "inj_on (at oi) (set ns)"
    and live: "\<forall>n\<in>set ns. uses_of_outputs g n \<noteq> None"
    and dout: "distinct out" and dq: "distinct (map snd q)"
    and disj: "set out \<inter> snd ` set q = {}"
    and outs: "set out \<subseteq> set ns" and qs: "snd ` set q \<subseteq> set ns"
    and I3: "\<forall>m\<in>set ns. at d m = int (remaining g ns out m)"
    and I8: "\<forall>m. m \<notin> set ns \<longrightarrow> at d m \<le> 0"
    and I4: "\<forall>m\<in>set ns. (m \<in> set out \<or> m \<in> snd ` set q) \<longleftrightarrow> at d m = 0"
    and I5: "\<forall>x\<in>set q. fst x = at oi (snd x)"
    and I6: "\<forall>v\<in>set out. \<forall>u\<in>set ns. v \<in> set (users g u) \<longrightarrow> precedes u v out"
    and I7: "\<forall>as x bs. out = as @ x # bs \<longrightarrow>
        (\<forall>m\<in>set ns. m \<notin> set as \<and> m \<noteq> x \<and> ready g ns as m \<longrightarrow> at oi x < at oi m)"
    using inv by (simp_all add: kahn_inv_def)
  have tq: "top q \<in> set q" using ne by (rule top_in_set)
  then have nq: "?n \<in> snd ` set q" by simp
  have nns: "?n \<in> set ns" using nq qs by blast
  have nout: "?n \<notin> set out" using nq disj by blast
  have dn0: "at d ?n = 0" using I4 nns nq by blast
  have un: "users g ?n = map getUser us" by (simp add: users_def us)
  from fold_visit_use [OF f] un obtain new where
    A: "\<forall>m. at d' m = at d m - int (count_list (users g ?n) m)" and
    B: "q' = pop q @ map (\<lambda>m. (at oi m, m)) new" and
    C: "distinct new" and
    D: "set new = {m. 0 < at d m \<and> at d m \<le> int (count_list (users g ?n) m)}"
    by auto
  have popq: "map snd (pop q) = remove1 ?n (map snd q)"
    unfolding pop_def using dq tq by (rule map_snd_remove1)
  have spop: "snd ` set (pop q) = snd ` set q - {?n}"
  proof -
    have "set (map snd (pop q)) = set (map snd q) - {?n}"
      using popq dq by (simp add: set_remove1_eq)
    then show ?thesis by simp
  qed
  have dpop: "distinct (map snd (pop q))" using popq dq by simp
  have sq': "snd ` set q' = (snd ` set q - {?n}) \<union> set new"
    using B spop by (auto simp: image_Un image_image)
  have mq': "map snd q' = map snd (pop q) @ new"
    using B by (simp add: comp_def)
  have R: "\<forall>m\<in>set ns. at d' m = int (remaining g ns (out @ [?n]) m)"
  proof
    fix m assume "m \<in> set ns"
    then have "at d m = int (remaining g ns out m)" using I3 by blast
    moreover have "remaining g ns (out @ [?n]) m + count_list (users g ?n) m = remaining g ns out m"
      using nns nout by (rule remaining_snoc)
    ultimately show "at d' m = int (remaining g ns (out @ [?n]) m)"
      using A by (metis add_diff_cancel_right' of_nat_add)
  qed
  have newns: "set new \<subseteq> set ns"
    using D I8 by force
  have newfresh: "\<forall>m\<in>set new. m \<notin> set out \<and> m \<notin> snd ` set q"
  proof
    fix m assume m: "m \<in> set new"
    then have "0 < at d m" using D by simp
    moreover have "m \<in> set ns" using m newns by blast
    ultimately show "m \<notin> set out \<and> m \<notin> snd ` set q" using I4 by force
  qed
  have new0: "\<forall>m\<in>set new. at d' m = 0"
  proof
    fix m assume m: "m \<in> set new"
    then have "at d m \<le> int (count_list (users g ?n) m)" using D by simp
    then have "at d' m \<le> 0" using A by simp
    moreover have "0 \<le> at d' m" using R m newns by (metis of_nat_0_le_iff subsetD)
    ultimately show "at d' m = 0" by simp
  qed
  have J1: "distinct (out @ [?n])" using dout nout by simp
  have J2: "distinct (map snd q')"
    unfolding mq' using dpop C newfresh spop by auto
  have J3: "set (out @ [?n]) \<inter> snd ` set q' = {}"
    using sq' disj newfresh dn0 D by auto
  have J4: "set (out @ [?n]) \<subseteq> set ns" using outs nns by simp
  have J5: "snd ` set q' \<subseteq> set ns" using sq' qs newns by auto
  have J8: "\<forall>m. m \<notin> set ns \<longrightarrow> at d' m \<le> 0"
  proof (intro allI impI)
    fix m assume "m \<notin> set ns"
    then have "at d m \<le> 0" using I8 by blast
    moreover have "at d' m \<le> at d m" using A by simp
    ultimately show "at d' m \<le> 0" by simp
  qed
  have J9: "\<forall>m\<in>set ns. (m \<in> set (out @ [?n]) \<or> m \<in> snd ` set q') \<longleftrightarrow> at d' m = 0"
  proof
    fix m assume mns: "m \<in> set ns"
    have ge: "0 \<le> at d' m" using R mns by simp
    have ged: "0 \<le> at d m" using I3 mns by simp
    show "(m \<in> set (out @ [?n]) \<or> m \<in> snd ` set q') \<longleftrightarrow> at d' m = 0"
    proof
      assume "m \<in> set (out @ [?n]) \<or> m \<in> snd ` set q'"
      then consider "m \<in> set out \<or> m \<in> snd ` set q" | "m \<in> set new"
        using sq' nq by auto
      then show "at d' m = 0"
      proof cases
        case 1
        then have "at d m = 0" using I4 mns by blast
        then have "at d' m \<le> 0" using A by simp
        with ge show ?thesis by simp
      next
        case 2
        then show ?thesis using new0 by blast
      qed
    next
      assume z: "at d' m = 0"
      show "m \<in> set (out @ [?n]) \<or> m \<in> snd ` set q'"
      proof (cases "at d m = 0")
        case True
        then have "m \<in> set out \<or> m \<in> snd ` set q" using I4 mns by blast
        then show ?thesis using sq' by auto
      next
        case False
        with ged have "0 < at d m" by simp
        moreover have "at d m = int (count_list (users g ?n) m)" using A z by simp
        ultimately have "m \<in> set new" using D by simp
        then show ?thesis using sq' by simp
      qed
    qed
  qed
  have J10: "\<forall>x\<in>set q'. fst x = at oi (snd x)"
  proof
    fix x assume "x \<in> set q'"
    then have "x \<in> set (pop q) \<or> x \<in> (\<lambda>m. (at oi m, m)) ` set new" using B by auto
    moreover have "set (pop q) \<subseteq> set q" by (simp add: pop_def set_remove1_subset)
    ultimately show "fst x = at oi (snd x)" using I5 by auto
  qed
  have rdy: "ready g ns out ?n"
    using dn0 I3 nns by (simp add: ready_remaining)
  have J11: "\<forall>v\<in>set (out @ [?n]). \<forall>u\<in>set ns. v \<in> set (users g u) \<longrightarrow> precedes u v (out @ [?n])"
  proof (intro ballI impI)
    fix v u assume v: "v \<in> set (out @ [?n])" and u: "u \<in> set ns" and e: "v \<in> set (users g u)"
    show "precedes u v (out @ [?n])"
    proof (cases "v \<in> set out")
      case True
      then show ?thesis using I6 u e precedes_snoc by blast
    next
      case False
      with v have "v = ?n" by simp
      then have "u \<in> set out" using rdy u e by (simp add: ready_def)
      then show ?thesis using \<open>v = ?n\<close> precedes_last by simp
    qed
  qed
  have J12: "\<forall>as x bs. out @ [?n] = as @ x # bs \<longrightarrow>
        (\<forall>m\<in>set ns. m \<notin> set as \<and> m \<noteq> x \<and> ready g ns as m \<longrightarrow> at oi x < at oi m)"
  proof (intro allI impI ballI)
    fix as x bs m
    assume sp: "out @ [?n] = as @ x # bs" and mns: "m \<in> set ns"
      and h: "m \<notin> set as \<and> m \<noteq> x \<and> ready g ns as m"
    from snoc_split [OF sp] show "at oi x < at oi m"
    proof
      assume l: "bs = [] \<and> as = out \<and> x = ?n"
      then have "remaining g ns out m = 0" using h by (simp add: ready_remaining)
      then have "at d m = 0" using I3 mns by simp
      then have "m \<in> snd ` set q" using I4 mns h l by blast
      then obtain y where y: "y \<in> set q" "snd y = m" by auto
      then have "top q \<le> y" by (simp add: top_le)
      moreover have "fst y = at oi m" using I5 y by auto
      moreover have "fst (top q) = at oi ?n" using I5 tq by blast
      ultimately have "at oi ?n \<le> at oi m"
        by (auto simp: less_eq_prod_def)
      moreover have "at oi ?n \<noteq> at oi m"
        using inj nns mns h l by (auto dest: inj_onD)
      ultimately show ?thesis using l by simp
    next
      assume "\<exists>bs'. bs = bs' @ [?n] \<and> out = as @ x # bs'"
      then show ?thesis using I7 mns h by blast
    qed
  qed
  show ?thesis
    unfolding kahn_inv_def
    by (intro conjI) (fact dns live inj J1 J2 J3 J4 J5 R J8 J9 J10 J11 J12)+
qed


lemma kahn_loop:
  "kahn_inv g ns oi d q out \<Longrightarrow>
     \<exists>d' out'. schedule_loop g oi d q out = Some (d', out') \<and> kahn_inv g ns oi d' [] out'"
proof (induction g oi d q out rule: schedule_loop.induct)
  case (1 g oi d q out)
  show ?case
  proof (cases "q = []")
    case True
    with "1.prems" show ?thesis by (subst schedule_loop.simps) simp
  next
    case False
    have "top q \<in> set q" using False by (rule top_in_set)
    then have "snd (top q) \<in> set ns"
      using "1.prems" by (auto simp: kahn_inv_def)
    then obtain us where us: "uses_of_outputs g (snd (top q)) = Some us"
      using "1.prems" by (auto simp: kahn_inv_def)
    obtain d1 q1 where f: "fold (visit_use oi) us (d, pop q) = (d1, q1)"
      by (cases "fold (visit_use oi) us (d, pop q)")
    have "kahn_inv g ns oi d1 q1 (out @ [snd (top q)])"
      using "1.prems" False us f by (rule kahn_step)
    from "1.IH" [OF False us f [symmetric] this]
    obtain d' out' where
      "schedule_loop g oi d1 q1 (out @ [snd (top q)]) = Some (d', out')"
      "kahn_inv g ns oi d' [] out'"
      by blast
    then show ?thesis using False us f by (subst schedule_loop.simps) simp
  qed
qed

text \<open>
  \<open>is_seq g p ns\<close>: following \<open>next\<close> from the pointer \<open>p\<close> visits exactly the live nodes
  \<open>ns\<close> and ends at \<open>nullptr\<close>.
\<close>

fun is_seq :: "graph \<Rightarrow> nat option \<Rightarrow> nat list \<Rightarrow> bool" where
  "is_seq g p [] = (p = None)"
| "is_seq g p (n # ns) =
     (p = Some n \<and> (case node_store g n of None \<Rightarrow> False | Some nd \<Rightarrow> is_seq g (nxt nd) ns))"

lemma is_seq_unique: "is_seq g p as \<Longrightarrow> is_seq g p bs \<Longrightarrow> as = bs"
proof (induction as arbitrary: p bs)
  case Nil
  then show ?case by (cases bs) auto
next
  case (Cons a as)
  then show ?case by (cases bs) (auto split: option.splits)
qed

lemma is_seq_suffix: "is_seq g p (as @ bs) \<Longrightarrow> \<exists>p'. is_seq g p' bs"
  by (induction as arbitrary: p) (auto split: option.splits)

lemma is_seq_distinct: "is_seq g p ns \<Longrightarrow> distinct ns"
proof (induction ns arbitrary: p)
  case Nil
  then show ?case by simp
next
  case (Cons n ns)
  then obtain nd where nd: "node_store g n = Some nd" "is_seq g (nxt nd) ns"
    by (auto split: option.splits)
  have "n \<notin> set ns"
  proof
    assume "n \<in> set ns"
    then obtain as bs where sp: "ns = as @ n # bs" by (auto simp: in_set_conv_decomp)
    with nd(2) obtain p' where "is_seq g p' (n # bs)" using is_seq_suffix by blast
    then have "is_seq g (nxt nd) bs" using nd(1) by simp
    with nd(2) have "ns = bs" by (rule is_seq_unique)
    with sp show False by simp
  qed
  with Cons.IH [OF nd(2)] show ?case by simp
qed

lemma is_seq_live: "is_seq g p ns \<Longrightarrow> n \<in> set ns \<Longrightarrow> node_store g n \<noteq> None"
  by (induction ns arbitrary: p) (auto split: option.splits)

lemma traverse_is_seq: "is_seq g p ns \<Longrightarrow> traverse g p = Some ns"
proof (induction ns arbitrary: p)
  case Nil
  then show ?case by (subst traverse.simps) simp
next
  case (Cons n ns)
  then show ?case by (subst traverse.simps) (auto split: option.splits)
qed

lemma record_nodes_is_seq:
  "is_seq g p ns \<Longrightarrow>
     record_nodes g p s = Some (fold (\<lambda>n. record_node n (the (node_store g n))) ns s)"
proof (induction ns arbitrary: p s)
  case Nil
  then show ?case by (subst record_nodes.simps) simp
next
  case (Cons n ns)
  then show ?case by (subst record_nodes.simps) (auto split: option.splits)
qed

text \<open>
  The original position of a node in the sequence, and the number of its input slots.
\<close>

definition index_of :: "nat list \<Rightarrow> nat \<Rightarrow> nat" where
  "index_of ns n = length (takeWhile (\<lambda>x. x \<noteq> n) ns)"

lemma index_of_Cons: "index_of (x # xs) m = (if m = x then 0 else Suc (index_of xs m))"
  by (simp add: index_of_def)

lemma nth_index_of: "m \<in> set ns \<Longrightarrow> ns ! index_of ns m = m"
  unfolding index_of_def by (induction ns) auto

lemma index_of_inj: "inj_on (index_of ns) (set ns)"
  by (rule inj_onI) (metis nth_index_of)

definition numin :: "graph \<Rightarrow> nat \<Rightarrow> int" where
  "numin g n = getNumOfInputs (the (node_store g n))"

lemma fold_record_node:
  assumes "distinct ns"
    and "fold (\<lambda>n. record_node n (the (node_store g n))) ns (d0, oi0, q0, k) = (d, oi, q, idx)"
  shows "(\<forall>m. at d m = (if m \<in> set ns then numin g m else at d0 m)) \<and>
         (\<forall>m. at oi m = (if m \<in> set ns then k + int (index_of ns m) else at oi0 m)) \<and>
         q = q0 @ map (\<lambda>m. (k + int (index_of ns m), m)) (filter (\<lambda>m. numin g m = 0) ns) \<and>
         idx = k + int (length ns)"
  using assms
proof (induction ns arbitrary: d0 oi0 q0 k)
  case Nil
  then show ?case by simp
next
  case (Cons x xs)
  let ?d1 = "AList.update x (numin g x) d0"
  let ?oi1 = "AList.update x k oi0"
  let ?q1 = "if numin g x = 0 then q0 @ [(k, x)] else q0"
  have st: "record_node x (the (node_store g x)) (d0, oi0, q0, k) = (?d1, ?oi1, ?q1, k + 1)"
    by (simp add: record_node_def Let_def at_update numin_def)
  from Cons.prems(2) st
  have f: "fold (\<lambda>n. record_node n (the (node_store g n))) xs (?d1, ?oi1, ?q1, k + 1) = (d, oi, q, idx)"
    by simp
  have dx: "distinct xs" and xn: "x \<notin> set xs" using Cons.prems(1) by simp_all
  note IH = Cons.IH [OF dx f]
  have 1: "\<forall>m. at d m = (if m \<in> set (x # xs) then numin g m else at d0 m)"
    using IH by (simp add: at_update)
  have 2: "\<forall>m. at oi m = (if m \<in> set (x # xs) then k + int (index_of (x # xs) m) else at oi0 m)"
    using IH xn by (auto simp: at_update index_of_Cons)
  have m: "map (\<lambda>m. (k + 1 + int (index_of xs m), m)) (filter (\<lambda>m. numin g m = 0) xs) =
           map (\<lambda>m. (k + int (index_of (x # xs) m), m)) (filter (\<lambda>m. numin g m = 0) xs)"
    using xn by (intro map_cong) (auto simp: index_of_Cons)
  have 3: "q = q0 @ map (\<lambda>m. (k + int (index_of (x # xs) m), m)) (filter (\<lambda>m. numin g m = 0) (x # xs))"
    using IH m by (simp add: index_of_Cons)
  have 4: "idx = k + int (length (x # xs))" using IH by simp
  from 1 2 3 4 show ?case by blast
qed


text \<open>
  The slot lists of a node and the users of a value, empty for a deleted object.
\<close>

definition inputs_of :: "graph \<Rightarrow> nat \<Rightarrow> nat list" where
  "inputs_of g n = (case node_store g n of None \<Rightarrow> [] | Some nd \<Rightarrow> m_Inputs nd)"

definition outputs_of :: "graph \<Rightarrow> nat \<Rightarrow> nat list" where
  "outputs_of g n = (case node_store g n of None \<Rightarrow> [] | Some nd \<Rightarrow> m_Outputs nd)"

definition users_of_value :: "graph \<Rightarrow> nat \<Rightarrow> nat list" where
  "users_of_value g v = (case value_store g v of None \<Rightarrow> [] | Some x \<Rightarrow> map getUser (getUses x))"

text \<open>
  Modelled from the spec: the link between slots and uses that the absent node and value
  classes maintain (sections 3 and 4.3, glossary). Every output value of a node of the
  sequence is allocated; every input slot has a live producing edge, that is, its value is
  an output slot of exactly one node of the sequence; and the use list of an output value
  names a node once for each of the node's input slots that hold the value.
\<close>

definition slots_linked :: "graph \<Rightarrow> nat list \<Rightarrow> bool" where
  "slots_linked g ns \<longleftrightarrow>
     (\<forall>u\<in>set ns. \<forall>v\<in>set (outputs_of g u). value_store g v \<noteq> None) \<and>
     (\<forall>n\<in>set ns. \<forall>v\<in>set (inputs_of g n). (\<Sum>u\<leftarrow>ns. count_list (outputs_of g u) v) = 1) \<and>
     (\<forall>u\<in>set ns. \<forall>v\<in>set (outputs_of g u). \<forall>n\<in>set ns.
        count_list (users_of_value g v) n = count_list (inputs_of g n) v)"

text \<open>
  The number of incoming edges of a node, and the edge relation on the sequence.
\<close>

definition num_incoming :: "graph \<Rightarrow> nat list \<Rightarrow> nat \<Rightarrow> nat" where
  "num_incoming g ns n = (\<Sum>u\<leftarrow>ns. count_list (users g u) n)"

definition edges :: "graph \<Rightarrow> nat list \<Rightarrow> (nat \<times> nat) set" where
  "edges g ns = {(u, v). u \<in> set ns \<and> v \<in> set ns \<and> v \<in> set (users g u)}"

lemma those_map_live:
  "\<forall>v\<in>set vs. h v \<noteq> None \<Longrightarrow>
     those (map (\<lambda>v. map_option f (h v)) vs) = Some (map (\<lambda>v. f (the (h v))) vs)"
  by (induction vs) auto

lemma uses_of_outputs_live:
  assumes "node_store g u = Some nd" "\<forall>v\<in>set (m_Outputs nd). value_store g v \<noteq> None"
  shows "uses_of_outputs g u =
           Some (concat (map (\<lambda>v. getUses (the (value_store g v))) (m_Outputs nd)))"
  using assms by (simp add: uses_of_outputs_def those_map_live)

lemma users_concat:
  assumes "node_store g u \<noteq> None" "\<forall>v\<in>set (outputs_of g u). value_store g v \<noteq> None"
  shows "users g u = concat (map (users_of_value g) (outputs_of g u))"
proof -
  from assms(1) obtain nd where nd: "node_store g u = Some nd" by auto
  with assms(2) have l: "\<forall>v\<in>set (m_Outputs nd). value_store g v \<noteq> None"
    by (simp add: outputs_of_def)
  have eq: "map (\<lambda>v. map getUser (getUses (the (value_store g v)))) (m_Outputs nd) =
        map (users_of_value g) (m_Outputs nd)"
    using l by (intro map_cong) (auto simp: users_of_value_def)
  have "users g u = map getUser (concat (map (\<lambda>v. getUses (the (value_store g v))) (m_Outputs nd)))"
    using uses_of_outputs_live [OF nd l] by (simp add: users_def)
  also have "\<dots> = concat (map (\<lambda>v. map getUser (getUses (the (value_store g v)))) (m_Outputs nd))"
    by (simp add: map_concat comp_def)
  also have "\<dots> = concat (map (users_of_value g) (m_Outputs nd))"
    by (simp only: eq)
  finally show ?thesis using nd by (simp add: outputs_of_def)
qed

lemma count_list_concat: "count_list (concat xss) n = (\<Sum>xs\<leftarrow>xss. count_list xs n)"
  by (induction xss) simp_all

lemma count_list_indicator: "count_list xs v = (\<Sum>x\<leftarrow>xs. if x = v then 1 else 0)"
  by (induction xs) simp_all

lemma count_list_cross: "(\<Sum>v\<leftarrow>vs. count_list xs v) = (\<Sum>x\<leftarrow>xs. count_list vs x)"
proof (induction vs)
  case Nil
  then show ?case by simp
next
  case (Cons v vs)
  have "(\<Sum>x\<leftarrow>xs. count_list (v # vs) x) =
        (\<Sum>x\<leftarrow>xs. (if x = v then 1 else 0) + count_list vs x)"
    by (intro arg_cong [where f = sum_list] map_cong) auto
  also have "\<dots> = count_list xs v + (\<Sum>x\<leftarrow>xs. count_list vs x)"
    by (simp add: sum_list_addf count_list_indicator [symmetric])
  finally show ?case using Cons.IH by simp
qed

lemma sum_list_swap:
  "(\<Sum>u\<leftarrow>us. \<Sum>x\<leftarrow>xs. (f u x :: nat)) = (\<Sum>x\<leftarrow>xs. \<Sum>u\<leftarrow>us. f u x)"
  by (induction us) (simp_all add: sum_list_addf)

lemma in_degree_is_num_incoming:
  assumes seq: "is_seq g p ns" and sl: "slots_linked g ns" and n: "n \<in> set ns"
  shows "numin g n = int (num_incoming g ns n)"
proof -
  have live: "\<forall>u\<in>set ns. node_store g u \<noteq> None" using seq is_seq_live by blast
  have S1: "\<forall>u\<in>set ns. \<forall>v\<in>set (outputs_of g u). value_store g v \<noteq> None"
    and S2: "\<forall>v\<in>set (inputs_of g n). (\<Sum>u\<leftarrow>ns. count_list (outputs_of g u) v) = 1"
    and S3: "\<forall>u\<in>set ns. \<forall>v\<in>set (outputs_of g u).
               count_list (users_of_value g v) n = count_list (inputs_of g n) v"
    using sl n by (simp_all add: slots_linked_def)
  have "num_incoming g ns n =
        (\<Sum>u\<leftarrow>ns. \<Sum>v\<leftarrow>outputs_of g u. count_list (users_of_value g v) n)"
    unfolding num_incoming_def
    using live S1 by (intro arg_cong [where f = sum_list] map_cong)
      (simp_all add: users_concat count_list_concat comp_def)
  also have "\<dots> = (\<Sum>u\<leftarrow>ns. \<Sum>v\<leftarrow>outputs_of g u. count_list (inputs_of g n) v)"
    using S3 by (intro arg_cong [where f = sum_list] map_cong) simp_all
  also have "\<dots> = (\<Sum>u\<leftarrow>ns. \<Sum>x\<leftarrow>inputs_of g n. count_list (outputs_of g u) x)"
    by (simp add: count_list_cross)
  also have "\<dots> = (\<Sum>x\<leftarrow>inputs_of g n. \<Sum>u\<leftarrow>ns. count_list (outputs_of g u) x)"
    by (rule sum_list_swap)
  also have "\<dots> = (\<Sum>x\<leftarrow>inputs_of g n. 1)"
    using S2 by (intro arg_cong [where f = sum_list] map_cong) simp_all
  also have "\<dots> = length (inputs_of g n)"
    by (simp add: sum_list_triv)
  finally have "num_incoming g ns n = length (inputs_of g n)" .
  moreover have "numin g n = int (length (inputs_of g n))"
    using live n by (auto simp: numin_def getNumOfInputs_def inputs_of_def)
  ultimately show ?thesis by simp
qed


lemma remaining_Nil: "distinct ns \<Longrightarrow> remaining g ns [] m = num_incoming g ns m"
  by (simp add: remaining_def num_incoming_def sum_list_distinct_conv_sum_set)

lemma at_Nil: "at [] m = 0"
  by (simp add: at_def)

lemma schedule_invariant_counts:
  assumes seq: "is_seq g (m_pNodeHead g) ns"
    and live: "\<forall>n\<in>set ns. uses_of_outputs g n \<noteq> None"
    and cnt: "\<forall>n\<in>set ns. numin g n = int (num_incoming g ns n)"
  shows "\<exists>d oi q k d' out.
           record_nodes g (m_pNodeHead g) ([], [], [], 0) = Some (d, oi, q, k) \<and>
           schedule g = Some (d', out) \<and> kahn_inv g ns oi d' [] out \<and>
           (\<forall>m\<in>set ns. at oi m = int (index_of ns m)) \<and>
           (\<forall>m\<in>set ns. at d m = int (num_incoming g ns m)) \<and>
           (\<forall>m\<in>set ns. at d m = numin g m)"
proof -
  obtain d oi q k where
    f: "fold (\<lambda>n. record_node n (the (node_store g n))) ns ([], [], [], 0) = (d, oi, q, k)"
    by (cases "fold (\<lambda>n. record_node n (the (node_store g n))) ns ([], [], [], 0)") auto
  have rec: "record_nodes g (m_pNodeHead g) ([], [], [], 0) = Some (d, oi, q, k)"
    using record_nodes_is_seq [OF seq] f by simp
  have dns: "distinct ns" using seq by (rule is_seq_distinct)
  from fold_record_node [OF dns f]
  have D: "\<forall>m. at d m = (if m \<in> set ns then numin g m else 0)"
    and O: "\<forall>m. at oi m = (if m \<in> set ns then int (index_of ns m) else 0)"
    and Q: "q = map (\<lambda>m. (int (index_of ns m), m)) (filter (\<lambda>m. numin g m = 0) ns)"
    by (simp_all add: at_Nil)
  have W: "\<forall>m\<in>set ns. at d m = int (num_incoming g ns m)"
    using D cnt by simp
  have oi: "\<forall>m\<in>set ns. at oi m = int (index_of ns m)" using O by simp
  have inj: "inj_on (at oi) (set ns)"
  proof (rule inj_onI)
    fix x y assume "x \<in> set ns" "y \<in> set ns" "at oi x = at oi y"
    then have "index_of ns x = index_of ns y" using oi by simp
    then show "x = y" using \<open>x \<in> set ns\<close> \<open>y \<in> set ns\<close> index_of_inj
      by (auto dest: inj_onD)
  qed
  have msq: "map snd q = filter (\<lambda>m. numin g m = 0) ns"
    unfolding Q by (simp add: comp_def)
  have sq: "snd ` set q = {m \<in> set ns. numin g m = 0}"
    using msq by (metis set_filter set_map)
  have K1: "distinct (map snd q)" using msq dns by simp
  have K3: "\<forall>m\<in>set ns. at d m = int (remaining g ns [] m)"
    using W dns by (simp add: remaining_Nil)
  have K4: "\<forall>m. m \<notin> set ns \<longrightarrow> at d m \<le> 0" using D by simp
  have K5: "\<forall>m\<in>set ns. (m \<in> set [] \<or> m \<in> snd ` set q) \<longleftrightarrow> at d m = 0"
    using sq D by simp
  have K6: "\<forall>x\<in>set q. fst x = at oi (snd x)"
    unfolding Q using O by auto
  have inv: "kahn_inv g ns oi d q []"
    unfolding kahn_inv_def
    using dns live inj K1 sq K3 K4 K5 K6 by (intro conjI) simp_all
  from kahn_loop [OF inv] obtain d' out where
    l: "schedule_loop g oi d q [] = Some (d', out)" and fin: "kahn_inv g ns oi d' [] out"
    by blast
  have "schedule g = Some (d', out)"
    using rec l by (simp add: schedule_def)
  moreover have "\<forall>m\<in>set ns. at d m = numin g m" using D by simp
  ultimately show ?thesis using rec fin oi W by blast
qed

lemma slots_linked_live:
  assumes seq: "is_seq g p ns" and sl: "slots_linked g ns"
  shows "\<forall>n\<in>set ns. uses_of_outputs g n \<noteq> None"
proof
  fix n assume n: "n \<in> set ns"
  then obtain nd where nd: "node_store g n = Some nd"
    using is_seq_live [OF seq] by blast
  moreover have "\<forall>v\<in>set (m_Outputs nd). value_store g v \<noteq> None"
    using sl n nd by (auto simp: slots_linked_def outputs_of_def)
  ultimately show "uses_of_outputs g n \<noteq> None"
    using uses_of_outputs_live by simp
qed

lemma schedule_invariant:
  assumes seq: "is_seq g (m_pNodeHead g) ns" and sl: "slots_linked g ns"
  shows "\<exists>d oi q k d' out.
           record_nodes g (m_pNodeHead g) ([], [], [], 0) = Some (d, oi, q, k) \<and>
           schedule g = Some (d', out) \<and> kahn_inv g ns oi d' [] out \<and>
           (\<forall>m\<in>set ns. at oi m = int (index_of ns m)) \<and>
           (\<forall>m\<in>set ns. at d m = int (num_incoming g ns m)) \<and>
           (\<forall>m\<in>set ns. at d m = numin g m)"
proof (rule schedule_invariant_counts [OF seq])
  show "\<forall>n\<in>set ns. uses_of_outputs g n \<noteq> None"
    using seq sl by (rule slots_linked_live)
  show "\<forall>n\<in>set ns. numin g n = int (num_incoming g ns n)"
    using in_degree_is_num_incoming [OF seq sl] by blast
qed

lemma record_nodes_counts:
  assumes seq: "is_seq g (m_pNodeHead g) ns"
  shows "\<exists>d oi q k.
           record_nodes g (m_pNodeHead g) ([], [], [], 0) = Some (d, oi, q, k) \<and>
           (\<forall>m\<in>set ns. at d m = int (length (inputs_of g m))) \<and>
           (\<forall>m\<in>set ns. at oi m = int (index_of ns m))"
proof -
  obtain d oi q k where
    f: "fold (\<lambda>n. record_node n (the (node_store g n))) ns ([], [], [], 0) = (d, oi, q, k)"
    by (cases "fold (\<lambda>n. record_node n (the (node_store g n))) ns ([], [], [], 0)") auto
  have rec: "record_nodes g (m_pNodeHead g) ([], [], [], 0) = Some (d, oi, q, k)"
    using record_nodes_is_seq [OF seq] f by simp
  have dns: "distinct ns" using seq by (rule is_seq_distinct)
  from fold_record_node [OF dns f]
  have D: "\<forall>m. at d m = (if m \<in> set ns then numin g m else 0)"
    and O: "\<forall>m. at oi m = (if m \<in> set ns then int (index_of ns m) else 0)"
    by (simp_all add: at_Nil)
  have L: "\<forall>m\<in>set ns. at d m = int (length (inputs_of g m))"
  proof
    fix m assume m: "m \<in> set ns"
    then obtain nd where "node_store g m = Some nd"
      using is_seq_live [OF seq] by blast
    then show "at d m = int (length (inputs_of g m))"
      using D m by (simp add: numin_def getNumOfInputs_def inputs_of_def)
  qed
  have "\<forall>m\<in>set ns. at oi m = int (index_of ns m)" using O by simp
  with rec L show ?thesis by (intro exI conjI)
qed




lemma relink_node_live:
  "relink_node nodes i g = Some g' \<Longrightarrow> (node_store g' n \<noteq> None) = (node_store g n \<noteq> None)"
  by (auto simp: relink_node_def split: option.splits if_splits)

lemma relink_fold_returns:
  "\<forall>i\<in>set is. node_store g0 (nodes ! i) \<noteq> None \<Longrightarrow>
     \<exists>g'. fold (\<lambda>i r. Option.bind r (relink_node nodes i)) is (Some g0) = Some g'"
proof (induction "is" arbitrary: g0)
  case Nil
  then show ?case by simp
next
  case (Cons i "is")
  then obtain nd where "node_store g0 (nodes ! i) = Some nd" by auto
  then obtain g1 where g1: "relink_node nodes i g0 = Some g1"
    by (simp add: relink_node_def)
  have "\<forall>j\<in>set is. node_store g1 (nodes ! j) \<noteq> None"
    using Cons.prems relink_node_live [OF g1] by simp
  from Cons.IH [OF this] g1 show ?case by simp
qed

lemma relink_returns:
  "\<forall>n\<in>set nodes. node_store g n \<noteq> None \<Longrightarrow> \<exists>g'. relink nodes g = Some g'"
  unfolding relink_def by (rule relink_fold_returns) simp

lemma kahn_inv_returns:
  assumes seq: "is_seq g p ns" and inv: "kahn_inv g ns oi d [] out"
    and s: "schedule g = Some (d, out)"
  shows "topologicalSort g \<noteq> None"
proof -
  have "set out \<subseteq> set ns" using inv by (simp add: kahn_inv_def)
  then have "\<forall>n\<in>set out. node_store g n \<noteq> None"
    using is_seq_live [OF seq] by blast
  from relink_returns [OF this] s show ?thesis
    by (auto simp: topologicalSort_def)
qed


lemma precedes_in_set: "precedes u v xs \<Longrightarrow> u \<in> set xs \<and> v \<in> set xs"
  by (auto simp: precedes_def)

lemma split_first_unique:
  assumes "as @ v # bs = es @ v # cs" "v \<notin> set as" "v \<notin> set es"
  shows "as = es"
proof -
  have t: "takeWhile (\<lambda>x. x \<noteq> v) (zs @ v # ys) = zs" if "v \<notin> set zs" for zs ys
    using that by (induction zs) auto
  have "takeWhile (\<lambda>x. x \<noteq> v) (as @ v # bs) = as"
    using assms(2) by (rule t)
  moreover have "takeWhile (\<lambda>x. x \<noteq> v) (es @ v # cs) = es"
    using assms(3) by (rule t)
  ultimately show ?thesis using assms(1) by simp
qed

lemma precedes_trans:
  assumes "distinct xs" "precedes u v xs" "precedes v w xs"
  shows "precedes u w xs"
proof -
  from assms(2) obtain as bs where 1: "xs = as @ v # bs" "u \<in> set as"
    by (auto simp: precedes_def)
  from assms(3) obtain cs ds where 2: "xs = cs @ w # ds" "v \<in> set cs"
    by (auto simp: precedes_def)
  from 2(2) obtain es fs where 3: "cs = es @ v # fs" by (auto simp: in_set_conv_decomp)
  have "as @ v # bs = es @ v # (fs @ w # ds)" using 1 2 3 by simp
  moreover have "v \<notin> set as"
    using assms(1) 1(1) by auto
  moreover have "distinct (es @ v # fs @ w # ds)"
    using assms(1) 2(1) 3 by simp
  then have "v \<notin> set es" by simp
  ultimately have "as = es"
    by (rule split_first_unique)
  then have "u \<in> set cs" using 1(2) 3 by simp
  with 2(1) show ?thesis by (auto simp: precedes_def)
qed

lemma precedes_irrefl: "distinct xs \<Longrightarrow> \<not> precedes v v xs"
  by (auto simp: precedes_def)

lemma kahn_inv_trancl:
  assumes inv: "kahn_inv g ns oi d q out"
  shows "(u, v) \<in> (edges g ns)\<^sup>+ \<Longrightarrow> v \<in> set out \<Longrightarrow> precedes u v out"
proof (induction rule: trancl_induct)
  case (base y)
  then show ?case using inv by (auto simp: kahn_inv_def edges_def)
next
  case (step y z)
  have yz: "precedes y z out"
    using step.hyps(2) step.prems inv by (auto simp: kahn_inv_def edges_def)
  then have "y \<in> set out" by (simp add: precedes_in_set)
  then have "precedes u y out" by (rule step.IH)
  moreover have "distinct out" using inv by (simp add: kahn_inv_def)
  ultimately show ?case using yz precedes_trans by blast
qed

lemma kahn_inv_cycle_dropped:
  assumes inv: "kahn_inv g ns oi d q out" and c: "(n, n) \<in> (edges g ns)\<^sup>+"
  shows "n \<notin> set out"
proof
  assume "n \<in> set out"
  with kahn_inv_trancl [OF inv c] have "precedes n n out" .
  moreover have "distinct out" using inv by (simp add: kahn_inv_def)
  ultimately show False using precedes_irrefl by blast
qed

lemma edges_trancl_in_seq: "(u, v) \<in> (edges g ns)\<^sup>+ \<Longrightarrow> u \<in> set ns"
  by (induction rule: trancl_induct) (auto simp: edges_def)


lemma cf_linked: "slots_linked consumer_first [1, 2]"
  by (simp add: slots_linked_def consumer_first_def outputs_of_def inputs_of_def users_of_value_def mk_node_def)



lemma abc_seq: "is_seq fan_in_abc (m_pNodeHead fan_in_abc) [30, 20, 10]"
  by (simp add: fan_in_abc_def mk_node_def)

lemma abc_linked: "slots_linked fan_in_abc [30, 20, 10]"
  by (simp add: slots_linked_def fan_in_abc_def outputs_of_def inputs_of_def users_of_value_def mk_node_def)

lemma tc_seq: "is_seq two_cycle (m_pNodeHead two_cycle) [1, 2, 3]"
  by (simp add: two_cycle_def mk_node_def)

lemma tc_linked: "slots_linked two_cycle [1, 2, 3]"
  by (simp add: slots_linked_def two_cycle_def outputs_of_def inputs_of_def users_of_value_def mk_node_def)

lemma tc_cyclic: "\<not> acyclic (edges two_cycle [1, 2, 3])"
proof -
  have "(1, 2) \<in> edges two_cycle [1, 2, 3]" "(2, 1) \<in> edges two_cycle [1, 2, 3]"
    by (simp_all add: edges_def users_def uses_of_outputs_def two_cycle_def mk_node_def)
  then have "(1, 1) \<in> (edges two_cycle [1, 2, 3])\<^sup>+" by (rule trancl_trans [OF r_into_trancl r_into_trancl])
  then show ?thesis by (auto simp: acyclic_def)
qed


section \<open>erase(ComputeOperand) and erase(ComputeOperator)\<close>


text \<open>
  A write through a pointer: \<open>p->field = v\<close> updates the object at \<open>p\<close> in its store.
  Writing through a pointer to a deleted object is undefined behaviour, the value \<open>None\<close>.
\<close>

definition set_arc :: "nat \<Rightarrow> (operand \<Rightarrow> operand) \<Rightarrow> graph \<Rightarrow> graph option" where
  "set_arc a f g =
     (case arc_store g a of
        None \<Rightarrow> None
      | Some x \<Rightarrow> Some (g\<lparr>arc_store := (arc_store g)(a \<mapsto> f x)\<rparr>))"

definition set_node :: "nat \<Rightarrow> (operator \<Rightarrow> operator) \<Rightarrow> graph \<Rightarrow> graph option" where
  "set_node n f g =
     (case node_store g n of
        None \<Rightarrow> None
      | Some x \<Rightarrow> Some (g\<lparr>node_store := (node_store g)(n \<mapsto> f x)\<rparr>))"

text \<open>
  erase(ComputeOperand), lines 85 to 95: the arc leaves the fan-out chain of its source. The
  arc is read again from the store before the second test, as the C++ reads \<open>pArc.next_out\<close>
  after the first write.
\<close>

definition unlink_out :: "nat \<Rightarrow> graph \<Rightarrow> graph option" where
  "unlink_out a g =
     do {
       pArc \<leftarrow> arc_store g a;
       g1 \<leftarrow> (case prev_out pArc of
                Some p \<Rightarrow> set_arc p (\<lambda>x. x\<lparr>next_out := next_out pArc\<rparr>) g
              | None \<Rightarrow> set_node (source pArc) (\<lambda>s. s\<lparr>first_out := next_out pArc\<rparr>) g);
       pArc1 \<leftarrow> arc_store g1 a;
       (case next_out pArc1 of
          Some q \<Rightarrow> set_arc q (\<lambda>x. x\<lparr>prev_out := prev_out pArc1\<rparr>) g1
        | None \<Rightarrow> Some g1)
     }"

text \<open>
  Lines 97 to 107: the arc leaves the fan-in chain of its target.
\<close>

definition unlink_in :: "nat \<Rightarrow> graph \<Rightarrow> graph option" where
  "unlink_in a g =
     do {
       pArc \<leftarrow> arc_store g a;
       g1 \<leftarrow> (case prev_in pArc of
                Some p \<Rightarrow> set_arc p (\<lambda>x. x\<lparr>next_in := next_in pArc\<rparr>) g
              | None \<Rightarrow> set_node (target pArc) (\<lambda>t. t\<lparr>first_in := next_in pArc\<rparr>) g);
       pArc1 \<leftarrow> arc_store g1 a;
       (case next_in pArc1 of
          Some q \<Rightarrow> set_arc q (\<lambda>x. x\<lparr>prev_in := prev_in pArc1\<rparr>) g1
        | None \<Rightarrow> Some g1)
     }"

text \<open>
  Lines 109 to 116: \<open>std::find\<close> looks for the arc in \<open>m_ArcList\<close>; only when it is found is
  that entry erased and the arc deleted.
\<close>

definition remove_arc :: "nat \<Rightarrow> graph \<Rightarrow> graph" where
  "remove_arc a g =
     (if a \<in> set (m_ArcList g)
      then g\<lparr>m_ArcList := remove1 a (m_ArcList g), arc_store := (arc_store g)(a := None)\<rparr>
      else g)"

definition erase_arc :: "nat \<Rightarrow> graph \<Rightarrow> graph option" where
  "erase_arc a g =
     do {
       g1 \<leftarrow> unlink_out a g;
       g2 \<leftarrow> unlink_in a g1;
       Some (remove_arc a g2)
     }"

text \<open>
  The two loops of erase(ComputeOperator), lines 59 to 72. Each saves the successor of the
  current arc, erases the arc and goes on with the saved pointer. A loop need not end on a
  malformed chain, so not returning is the value \<open>None\<close>.
\<close>

partial_function (option) erase_fan_in :: "nat option \<Rightarrow> graph \<Rightarrow> graph option" where
  "erase_fan_in fan_in g =
     (case fan_in of
        None \<Rightarrow> Some g
      | Some a \<Rightarrow>
          (case arc_store g a of
             None \<Rightarrow> None
           | Some x \<Rightarrow> Option.bind (erase_arc a g) (erase_fan_in (next_in x))))"

partial_function (option) erase_fan_out :: "nat option \<Rightarrow> graph \<Rightarrow> graph option" where
  "erase_fan_out fan_out g =
     (case fan_out of
        None \<Rightarrow> Some g
      | Some a \<Rightarrow>
          (case arc_store g a of
             None \<Rightarrow> None
           | Some x \<Rightarrow> Option.bind (erase_arc a g) (erase_fan_out (next_out x))))"

declare erase_fan_in.simps [code]
declare erase_fan_out.simps [code]

text \<open>
  erase(ComputeOperator), lines 44 to 56: the neighbours are connected to each other, and
  the rear or head anchor is moved when the node has no successor or no predecessor.
  \<open>getPrevNode()\<close> and \<open>getNextNode()\<close> read \<open>prev\<close> and \<open>next\<close>.
\<close>

definition unlink_node :: "nat \<Rightarrow> graph \<Rightarrow> graph option" where
  "unlink_node n g =
     do {
       pNode \<leftarrow> node_store g n;
       g1 \<leftarrow> (case nxt pNode of
                Some x \<Rightarrow> set_node x (\<lambda>y. y\<lparr>prev := prev pNode\<rparr>) g
              | None \<Rightarrow> Some (g\<lparr>m_pNodeRear := prev pNode\<rparr>));
       pNode1 \<leftarrow> node_store g1 n;
       (case prev pNode1 of
          Some x \<Rightarrow> set_node x (\<lambda>y. y\<lparr>nxt := nxt pNode1\<rparr>) g1
        | None \<Rightarrow> Some (g1\<lparr>m_pNodeHead := nxt pNode1\<rparr>))
     }"

text \<open>
  The whole of erase(ComputeOperator): unlink, erase the fan-in arcs, erase the fan-out
  arcs, remove the node from \<open>m_NodeList\<close> and delete it.
\<close>

definition erase_node :: "nat \<Rightarrow> graph \<Rightarrow> graph option" where
  "erase_node n g =
     do {
       g1 \<leftarrow> unlink_node n g;
       pNode1 \<leftarrow> node_store g1 n;
       g2 \<leftarrow> erase_fan_in (first_in pNode1) g1;
       pNode2 \<leftarrow> node_store g2 n;
       g3 \<leftarrow> erase_fan_out (first_out pNode2) g2;
       Some (g3\<lparr>m_NodeList := m_NodeList g3 - {n}, node_store := (node_store g3)(n := None)\<rparr>)
     }"

text \<open>
  A doubly linked segment of a store: \<open>dlseg st prv nx pr p as e\<close> holds when following
  the \<open>nx\<close> field from the pointer \<open>p\<close> visits exactly the objects \<open>as\<close> and then
  reaches \<open>e\<close>, the \<open>prv\<close> field of the first object is \<open>pr\<close> and the \<open>prv\<close> field
  of every other object points to the object before it.
\<close>

fun dlseg ::
  "(nat \<rightharpoonup> 'r) \<Rightarrow> ('r \<Rightarrow> nat option) \<Rightarrow> ('r \<Rightarrow> nat option) \<Rightarrow> nat option \<Rightarrow> nat option
     \<Rightarrow> nat list \<Rightarrow> nat option \<Rightarrow> bool" where
  "dlseg st prv nx pr p [] e = (p = e)"
| "dlseg st prv nx pr p (a # as) e =
     (p = Some a \<and>
      (case st a of None \<Rightarrow> False | Some x \<Rightarrow> prv x = pr \<and> dlseg st prv nx (Some a) (nx x) as e))"

lemma dlseg_live: "dlseg st prv nx pr p as e \<Longrightarrow> a \<in> set as \<Longrightarrow> st a \<noteq> None"
  by (induction as arbitrary: pr p) (auto split: option.splits)

lemma dlseg_frame:
  "\<forall>y\<in>set as. \<exists>r r'. st y = Some r \<and> st' y = Some r' \<and> prv r' = prv r \<and> nx r' = nx r \<Longrightarrow>
     dlseg st prv nx pr p as e \<Longrightarrow> dlseg st' prv nx pr p as e"
  by (induction as arbitrary: pr p) (auto split: option.splits)

lemma dlseg_unique:
  "dlseg st prv nx pr p as None \<Longrightarrow> dlseg st prv nx pr p bs None \<Longrightarrow> as = bs"
proof (induction as arbitrary: pr p bs)
  case Nil
  then show ?case by (cases bs) auto
next
  case (Cons a as)
  then show ?case by (cases bs) (auto split: option.splits)
qed

lemma dlseg_suffix:
  "dlseg st prv nx pr p (as @ b # bs) e \<Longrightarrow>
     \<exists>x. st b = Some x \<and> dlseg st prv nx (Some b) (nx x) bs e"
proof (induction as arbitrary: pr p)
  case Nil
  then show ?case by (auto split: option.splits)
next
  case (Cons a as)
  then obtain y where "dlseg st prv nx (Some a) (nx y) (as @ b # bs) e"
    by (auto split: option.splits)
  then show ?case by (rule Cons.IH)
qed

lemma dlseg_distinct: "dlseg st prv nx pr p as None \<Longrightarrow> distinct as"
proof (induction as arbitrary: pr p)
  case Nil
  then show ?case by simp
next
  case (Cons a as)
  then obtain x where x: "st a = Some x" "dlseg st prv nx (Some a) (nx x) as None"
    by (auto split: option.splits)
  have "a \<notin> set as"
  proof
    assume "a \<in> set as"
    then obtain bs cs where sp: "as = bs @ a # cs" by (auto simp: in_set_conv_decomp)
    with x(2) obtain x' where "st a = Some x'" "dlseg st prv nx (Some a) (nx x') cs None"
      using dlseg_suffix by blast
    then have "dlseg st prv nx (Some a) (nx x) cs None" using x(1) by simp
    with x(2) have "as = cs" by (rule dlseg_unique)
    with sp show False by simp
  qed
  with Cons.IH [OF x(2)] show ?case by simp
qed

lemma dlseg_prev:
  "dlseg st prv nx pr p (xs @ a # ys) e \<Longrightarrow> st a = Some x \<Longrightarrow>
     prv x = (if xs = [] then pr else Some (last xs))"
  by (induction xs arbitrary: pr p) (auto split: option.splits)

lemma dlseg_next:
  "dlseg st prv nx pr p (xs @ a # ys) e \<Longrightarrow> st a = Some x \<Longrightarrow>
     nx x = (if ys = [] then e else Some (hd ys))"
proof -
  assume a: "dlseg st prv nx pr p (xs @ a # ys) e" and x: "st a = Some x"
  from dlseg_suffix [OF a] x have "dlseg st prv nx (Some a) (nx x) ys e" by simp
  then show ?thesis by (cases ys) auto
qed

lemma dlseg_head: "dlseg st prv nx pr p as e \<Longrightarrow> as \<noteq> [] \<Longrightarrow> p = Some (hd as)"
  by (cases as) auto

lemma dlseg_unlink:
  assumes "dlseg st prv nx pr p (xs @ a # ys) None"
    and "distinct (xs @ a # ys)"
    and "\<forall>z. pr = Some z \<longrightarrow> z \<notin> set (xs @ a # ys)"
    and "st a = Some x"
    and "\<forall>y\<in>set (xs @ ys). \<exists>r r'. st y = Some r \<and> st' y = Some r' \<and>
           prv r' = (if nx x = Some y then prv x else prv r) \<and>
           nx r' = (if prv x = Some y then nx x else nx r)"
  shows "dlseg st' prv nx pr (if xs = [] then nx x else p) (xs @ ys) None"
  using assms
proof (induction xs arbitrary: pr p)
  case Nil
  have px: "prv x = pr" and rest: "dlseg st prv nx (Some a) (nx x) ys None"
    using Nil.prems(1,4) by simp_all
  show ?case
  proof (cases ys)
    case Nil
    with rest show ?thesis by simp
  next
    case (Cons q qs)
    with rest have nq: "nx x = Some q" by simp
    from rest Cons obtain r where r: "st q = Some r" "prv r = Some a"
      "dlseg st prv nx (Some q) (nx r) qs None"
      by (auto split: option.splits)
    from Nil.prems(5) Cons r(1) obtain r' where r': "st' q = Some r'"
      "prv r' = (if nx x = Some q then prv x else prv r)"
      "nx r' = (if prv x = Some q then nx x else nx r)"
      by auto
    have prq: "prv x \<noteq> Some q" using px Nil.prems(3) Cons by auto
    have fr: "\<forall>y\<in>set qs. \<exists>r r'. st y = Some r \<and> st' y = Some r' \<and> prv r' = prv r \<and> nx r' = nx r"
    proof
      fix y assume y: "y \<in> set qs"
      with Nil.prems(5) Cons obtain s s' where s: "st y = Some s" "st' y = Some s'"
        "prv s' = (if nx x = Some y then prv x else prv s)"
        "nx s' = (if prv x = Some y then nx x else nx s)"
        by auto
      have "y \<noteq> q" using y Nil.prems(2) Cons by auto
      moreover have "prv x \<noteq> Some y" using px Nil.prems(3) Cons y by auto
      ultimately show "\<exists>r r'. st y = Some r \<and> st' y = Some r' \<and> prv r' = prv r \<and> nx r' = nx r"
        using s nq by auto
    qed
    have "dlseg st' prv nx (Some q) (nx r) qs None"
      using fr r(3) by (rule dlseg_frame)
    then show ?thesis using Cons nq r' prq px by simp
  qed
next
  case (Cons b xs)
  from Cons.prems(1) obtain rb where rb: "st b = Some rb" "prv rb = pr" "p = Some b"
    "dlseg st prv nx (Some b) (nx rb) (xs @ a # ys) None"
    by (auto split: option.splits)
  have d: "distinct (xs @ a # ys)" and bn: "b \<notin> set (xs @ a # ys)"
    using Cons.prems(2) by simp_all
  have "\<forall>y\<in>set (xs @ ys). \<exists>r r'. st y = Some r \<and> st' y = Some r' \<and>
           prv r' = (if nx x = Some y then prv x else prv r) \<and>
           nx r' = (if prv x = Some y then nx x else nx r)"
    using Cons.prems(5) by simp
  with Cons.IH [of "Some b" "nx rb"] rb(4) d bn Cons.prems(4)
  have IH: "dlseg st' prv nx (Some b) (if xs = [] then nx x else nx rb) (xs @ ys) None"
    by simp
  from Cons.prems(5) rb(1) obtain rb' where rb': "st' b = Some rb'"
    "prv rb' = (if nx x = Some b then prv x else prv rb)"
    "nx rb' = (if prv x = Some b then nx x else nx rb)"
    by auto
  have nxb: "nx x \<noteq> Some b"
  proof -
    have "nx x = (if ys = [] then None else Some (hd ys))"
      using rb(4) Cons.prems(4) by (rule dlseg_next)
    then show ?thesis using bn by (auto split: if_splits)
  qed
  have pxb: "prv x = Some b \<longleftrightarrow> xs = []"
  proof -
    have "prv x = (if xs = [] then Some b else Some (last xs))"
      using rb(4) Cons.prems(4) by (rule dlseg_prev)
    then show ?thesis using bn by (auto split: if_splits)
  qed
  show ?case using IH rb rb' nxb pxb by simp
qed


lemma unlink_out_effect:
  assumes "arc_store g a = Some x"
    and "prev_out x \<noteq> Some a" and "next_out x \<noteq> Some a"
    and "\<forall>p. prev_out x = Some p \<longrightarrow> arc_store g p \<noteq> None"
    and "prev_out x = None \<longrightarrow> node_store g (source x) \<noteq> None"
    and "\<forall>q. next_out x = Some q \<longrightarrow> arc_store g q \<noteq> None"
  shows "\<exists>g'. unlink_out a g = Some g' \<and>
          m_pNodeHead g' = m_pNodeHead g \<and> m_pNodeRear g' = m_pNodeRear g \<and>
          m_NodeList g' = m_NodeList g \<and> m_ArcList g' = m_ArcList g \<and>
          m_ValueList g' = m_ValueList g \<and> value_store g' = value_store g \<and>
          arc_store g' a = Some x \<and>
          (\<forall>y. y \<noteq> a \<longrightarrow> arc_store g' y =
             map_option (\<lambda>r. r\<lparr>prev_out := if next_out x = Some y then prev_out x else prev_out r,
                               next_out := if prev_out x = Some y then next_out x else next_out r\<rparr>)
               (arc_store g y)) \<and>
          (\<forall>n. node_store g' n =
             map_option (\<lambda>nd. if prev_out x = None \<and> n = source x
                               then nd\<lparr>first_out := next_out x\<rparr> else nd)
               (node_store g n))"
proof (cases "prev_out x")
  case None
  with assms(5) obtain nd where nd: "node_store g (source x) = Some nd" by auto
  show ?thesis
  proof (cases "next_out x")
    case n: None
    show ?thesis
      using assms(1) None n nd
      by (auto simp: unlink_out_def set_node_def set_arc_def map_option_case split: option.splits)
  next
    case (Some q)
    with assms(6) obtain rq where rq: "arc_store g q = Some rq" by auto
    have "q \<noteq> a" using Some assms(3) by auto
    then show ?thesis
      using assms(1) None Some nd rq
      by (auto simp: unlink_out_def set_node_def set_arc_def map_option_case split: option.splits)
  qed
next
  case (Some p)
  with assms(4) obtain rp where rp: "arc_store g p = Some rp" by auto
  have pa: "p \<noteq> a" using Some assms(2) by auto
  show ?thesis
  proof (cases "next_out x")
    case None
    show ?thesis
      using assms(1) None Some rp pa
      by (auto simp: unlink_out_def set_node_def set_arc_def map_option_case split: option.splits)
  next
    case q: (Some q)
    with assms(6) obtain rq where rq: "arc_store g q = Some rq" by auto
    have "q \<noteq> a" using q assms(3) by auto
    then show ?thesis
      using assms(1) q Some rp rq pa
      by (auto simp: unlink_out_def set_node_def set_arc_def map_option_case split: option.splits)
  qed
qed


lemma unlink_in_effect:
  assumes "arc_store g a = Some x"
    and "prev_in x \<noteq> Some a" and "next_in x \<noteq> Some a"
    and "\<forall>p. prev_in x = Some p \<longrightarrow> arc_store g p \<noteq> None"
    and "prev_in x = None \<longrightarrow> node_store g (target x) \<noteq> None"
    and "\<forall>q. next_in x = Some q \<longrightarrow> arc_store g q \<noteq> None"
  shows "\<exists>g'. unlink_in a g = Some g' \<and>
          m_pNodeHead g' = m_pNodeHead g \<and> m_pNodeRear g' = m_pNodeRear g \<and>
          m_NodeList g' = m_NodeList g \<and> m_ArcList g' = m_ArcList g \<and>
          m_ValueList g' = m_ValueList g \<and> value_store g' = value_store g \<and>
          arc_store g' a = Some x \<and>
          (\<forall>y. y \<noteq> a \<longrightarrow> arc_store g' y =
             map_option (\<lambda>r. r\<lparr>prev_in := if next_in x = Some y then prev_in x else prev_in r,
                               next_in := if prev_in x = Some y then next_in x else next_in r\<rparr>)
               (arc_store g y)) \<and>
          (\<forall>n. node_store g' n =
             map_option (\<lambda>nd. if prev_in x = None \<and> n = target x
                               then nd\<lparr>first_in := next_in x\<rparr> else nd)
               (node_store g n))"
proof (cases "prev_in x")
  case None
  with assms(5) obtain nd where nd: "node_store g (target x) = Some nd" by auto
  show ?thesis
  proof (cases "next_in x")
    case n: None
    show ?thesis
      using assms(1) None n nd
      by (auto simp: unlink_in_def set_node_def set_arc_def map_option_case split: option.splits)
  next
    case (Some q)
    with assms(6) obtain rq where rq: "arc_store g q = Some rq" by auto
    have "q \<noteq> a" using Some assms(3) by auto
    then show ?thesis
      using assms(1) None Some nd rq
      by (auto simp: unlink_in_def set_node_def set_arc_def map_option_case split: option.splits)
  qed
next
  case (Some p)
  with assms(4) obtain rp where rp: "arc_store g p = Some rp" by auto
  have pa: "p \<noteq> a" using Some assms(2) by auto
  show ?thesis
  proof (cases "next_in x")
    case None
    show ?thesis
      using assms(1) None Some rp pa
      by (auto simp: unlink_in_def set_node_def set_arc_def map_option_case split: option.splits)
  next
    case q: (Some q)
    with assms(6) obtain rq where rq: "arc_store g q = Some rq" by auto
    have "q \<noteq> a" using q assms(3) by auto
    then show ?thesis
      using assms(1) q Some rp rq pa
      by (auto simp: unlink_in_def set_node_def set_arc_def map_option_case split: option.splits)
  qed
qed


lemma unlink_node_effect:
  assumes "node_store g n = Some x"
    and "prev x \<noteq> Some n" and "nxt x \<noteq> Some n"
    and "\<forall>p. prev x = Some p \<longrightarrow> node_store g p \<noteq> None"
    and "\<forall>q. nxt x = Some q \<longrightarrow> node_store g q \<noteq> None"
  shows "\<exists>g'. unlink_node n g = Some g' \<and>
          m_pNodeHead g' = (if prev x = None then nxt x else m_pNodeHead g) \<and>
          m_pNodeRear g' = (if nxt x = None then prev x else m_pNodeRear g) \<and>
          m_NodeList g' = m_NodeList g \<and> m_ArcList g' = m_ArcList g \<and>
          m_ValueList g' = m_ValueList g \<and> value_store g' = value_store g \<and>
          arc_store g' = arc_store g \<and>
          node_store g' n = Some x \<and>
          (\<forall>y. y \<noteq> n \<longrightarrow> node_store g' y =
             map_option (\<lambda>r. r\<lparr>prev := if nxt x = Some y then prev x else prev r,
                               nxt := if prev x = Some y then nxt x else nxt r\<rparr>)
               (node_store g y))"
proof (cases "prev x")
  case None
  show ?thesis
  proof (cases "nxt x")
    case n: None
    show ?thesis
      using assms(1) None n
      by (auto simp: unlink_node_def set_node_def map_option_case split: option.splits)
  next
    case (Some q)
    with assms(5) obtain rq where rq: "node_store g q = Some rq" by auto
    have "q \<noteq> n" using Some assms(3) by auto
    then show ?thesis
      using assms(1) None Some rq
      by (auto simp: unlink_node_def set_node_def map_option_case split: option.splits)
  qed
next
  case (Some p)
  with assms(4) obtain rp where rp: "node_store g p = Some rp" by auto
  have pa: "p \<noteq> n" using Some assms(2) by auto
  show ?thesis
  proof (cases "nxt x")
    case None
    show ?thesis
      using assms(1) None Some rp pa
      by (auto simp: unlink_node_def set_node_def map_option_case split: option.splits)
  next
    case q: (Some q)
    with assms(5) obtain rq where rq: "node_store g q = Some rq" by auto
    have "q \<noteq> n" using q assms(3) by auto
    then show ?thesis
      using assms(1) q Some rp rq pa
      by (auto simp: unlink_node_def set_node_def map_option_case split: option.splits)
  qed
qed

text \<open>
  The fan-in chain and the fan-out chain of a node, as lists of arcs: the chain starts at
  \<open>first_in\<close> (\<open>first_out\<close>), is linked by \<open>next_in\<close>/\<open>prev_in\<close>
  (\<open>next_out\<close>/\<open>prev_out\<close>) and ends at \<open>nullptr\<close>. A deleted node has no chain.
\<close>

definition in_seg :: "graph \<Rightarrow> nat \<Rightarrow> nat list \<Rightarrow> bool" where
  "in_seg g n as =
     (case node_store g n of
        None \<Rightarrow> as = []
      | Some nd \<Rightarrow> dlseg (arc_store g) prev_in next_in None (first_in nd) as None)"

definition out_seg :: "graph \<Rightarrow> nat \<Rightarrow> nat list \<Rightarrow> bool" where
  "out_seg g n as =
     (case node_store g n of
        None \<Rightarrow> as = []
      | Some nd \<Rightarrow> dlseg (arc_store g) prev_out next_out None (first_out nd) as None)"

text \<open>
  Invariant 2 of the data model: with \<open>ins n\<close> and \<open>outs n\<close> the chains of node \<open>n\<close>,
  every arc of a fan-out chain has that node as its source and is in the fan-in chain of its
  target, and every arc of a fan-in chain has that node as its target and is in the fan-out
  chain of its source.
\<close>

definition chains_ok :: "graph \<Rightarrow> (nat \<Rightarrow> nat list) \<Rightarrow> (nat \<Rightarrow> nat list) \<Rightarrow> bool" where
  "chains_ok g ins outs \<longleftrightarrow>
     (\<forall>n. in_seg g n (ins n)) \<and> (\<forall>n. out_seg g n (outs n)) \<and>
     (\<forall>n. \<forall>a\<in>set (outs n). \<exists>x. arc_store g a = Some x \<and> source x = n \<and> a \<in> set (ins (target x))) \<and>
     (\<forall>n. \<forall>a\<in>set (ins n). \<exists>x. arc_store g a = Some x \<and> target x = n \<and> a \<in> set (outs (source x)))"


text \<open>
  What the erasure of arcs leaves alone: the anchors of the sequence, the node list, the
  values, the \<open>prev\<close>/\<open>next\<close> links and slots of every node, and the end points of
  every arc that is still allocated.
\<close>

definition links_only :: "graph \<Rightarrow> graph \<Rightarrow> bool" where
  "links_only g g' \<longleftrightarrow>
     m_pNodeHead g' = m_pNodeHead g \<and> m_pNodeRear g' = m_pNodeRear g \<and>
     m_NodeList g' = m_NodeList g \<and> m_ValueList g' = m_ValueList g \<and>
     value_store g' = value_store g \<and>
     (\<forall>n. map_option (\<lambda>nd. (prev nd, nxt nd, m_Inputs nd, m_Outputs nd)) (node_store g' n) =
          map_option (\<lambda>nd. (prev nd, nxt nd, m_Inputs nd, m_Outputs nd)) (node_store g n)) \<and>
     (\<forall>y r'. arc_store g' y = Some r' \<longrightarrow>
          (\<exists>r. arc_store g y = Some r \<and> source r' = source r \<and> target r' = target r))"

lemma links_only_refl: "links_only g g"
  by (simp add: links_only_def)

lemma links_only_trans: "links_only g g1 \<Longrightarrow> links_only g1 g2 \<Longrightarrow> links_only g g2"
  unfolding links_only_def by (intro conjI) (simp, simp, simp, simp, simp, simp, metis)

lemma links_only_arc:
  "links_only g g' \<Longrightarrow> arc_store g' y = Some r' \<Longrightarrow>
     \<exists>r. arc_store g y = Some r \<and> source r' = source r \<and> target r' = target r"
  unfolding links_only_def by blast

lemma out_seg_frame:
  assumes "out_seg g n as"
    and "map_option first_out (node_store g' n) = map_option first_out (node_store g n)"
    and "\<forall>y\<in>set as. map_option (\<lambda>r. (prev_out r, next_out r)) (arc_store g' y) =
                      map_option (\<lambda>r. (prev_out r, next_out r)) (arc_store g y)"
  shows "out_seg g' n as"
proof (cases "node_store g n")
  case None
  with assms(1,2) show ?thesis by (simp add: out_seg_def)
next
  case (Some nd)
  with assms(2) obtain nd' where nd': "node_store g' n = Some nd'" "first_out nd' = first_out nd"
    by auto
  from assms(1) Some have seg: "dlseg (arc_store g) prev_out next_out None (first_out nd) as None"
    by (simp add: out_seg_def)
  have "\<forall>y\<in>set as. \<exists>r r'. arc_store g y = Some r \<and> arc_store g' y = Some r' \<and>
          prev_out r' = prev_out r \<and> next_out r' = next_out r"
  proof
    fix y assume y: "y \<in> set as"
    with seg obtain r where r: "arc_store g y = Some r" using dlseg_live by fastforce
    with assms(3) y obtain r' where "arc_store g' y = Some r'"
      "(prev_out r', next_out r') = (prev_out r, next_out r)"
      by fastforce
    with r show "\<exists>r r'. arc_store g y = Some r \<and> arc_store g' y = Some r' \<and>
          prev_out r' = prev_out r \<and> next_out r' = next_out r"
      by simp
  qed
  then have "dlseg (arc_store g') prev_out next_out None (first_out nd) as None"
    using seg by (rule dlseg_frame)
  with nd' show ?thesis by (simp add: out_seg_def)
qed


lemma in_seg_frame:
  assumes "in_seg g n as"
    and "map_option first_in (node_store g' n) = map_option first_in (node_store g n)"
    and "\<forall>y\<in>set as. map_option (\<lambda>r. (prev_in r, next_in r)) (arc_store g' y) =
                      map_option (\<lambda>r. (prev_in r, next_in r)) (arc_store g y)"
  shows "in_seg g' n as"
proof (cases "node_store g n")
  case None
  with assms(1,2) show ?thesis by (simp add: in_seg_def)
next
  case (Some nd)
  with assms(2) obtain nd' where nd': "node_store g' n = Some nd'" "first_in nd' = first_in nd"
    by auto
  from assms(1) Some have seg: "dlseg (arc_store g) prev_in next_in None (first_in nd) as None"
    by (simp add: in_seg_def)
  have "\<forall>y\<in>set as. \<exists>r r'. arc_store g y = Some r \<and> arc_store g' y = Some r' \<and>
          prev_in r' = prev_in r \<and> next_in r' = next_in r"
  proof
    fix y assume y: "y \<in> set as"
    with seg obtain r where r: "arc_store g y = Some r" using dlseg_live by fastforce
    with assms(3) y obtain r' where "arc_store g' y = Some r'"
      "(prev_in r', next_in r') = (prev_in r, next_in r)"
      by fastforce
    with r show "\<exists>r r'. arc_store g y = Some r \<and> arc_store g' y = Some r' \<and>
          prev_in r' = prev_in r \<and> next_in r' = next_in r"
      by simp
  qed
  then have "dlseg (arc_store g') prev_in next_in None (first_in nd) as None"
    using seg by (rule dlseg_frame)
  with nd' show ?thesis by (simp add: in_seg_def)
qed

lemma unlink_out_chains:
  assumes ins_ok: "\<forall>n. in_seg g n (ins n)" and outs_ok: "\<forall>n. out_seg g n (outs n)"
    and own: "\<forall>n. \<forall>b\<in>set (outs n). \<exists>r. arc_store g b = Some r \<and> source r = n"
    and a: "arc_store g a = Some x" and lk: "a \<in> set (outs (source x))"
  shows "\<exists>g1. unlink_out a g = Some g1 \<and>
           (\<forall>n. in_seg g1 n (ins n)) \<and>
           (\<forall>n. out_seg g1 n (if n = source x then remove1 a (outs n) else outs n)) \<and>
           arc_store g1 a = Some x \<and>
           (\<forall>y. (arc_store g1 y = None) = (arc_store g y = None)) \<and>
           links_only g g1 \<and> m_ArcList g1 = m_ArcList g"
proof -
  let ?s = "source x"
  have ne: "outs ?s \<noteq> []" using lk by auto
  have "out_seg g ?s (outs ?s)" using outs_ok by blast
  with ne obtain nd where nd: "node_store g ?s = Some nd"
    and seg: "dlseg (arc_store g) prev_out next_out None (first_out nd) (outs ?s) None"
    by (auto simp: out_seg_def split: option.splits)
  from lk obtain xs ys where sp: "outs ?s = xs @ a # ys" by (auto simp: in_set_conv_decomp)
  have seg': "dlseg (arc_store g) prev_out next_out None (first_out nd) (xs @ a # ys) None"
    using seg sp by simp
  have dist: "distinct (xs @ a # ys)" using seg' by (rule dlseg_distinct)
  have px: "prev_out x = (if xs = [] then None else Some (last xs))"
    using seg' a by (rule dlseg_prev)
  have nx: "next_out x = (if ys = [] then None else Some (hd ys))"
    using seg' a by (rule dlseg_next)
  have live: "arc_store g y \<noteq> None" if "y \<in> set (xs @ a # ys)" for y
    using seg' that by (rule dlseg_live)
  have pin: "z \<in> set xs" if "prev_out x = Some z" for z
    using that px by (auto split: if_splits)
  have nin: "z \<in> set ys" if "next_out x = Some z" for z
    using that nx by (auto split: if_splits)
  have p1: "prev_out x \<noteq> Some a" using pin dist by auto
  have p2: "next_out x \<noteq> Some a" using nin dist by auto
  have p3: "\<forall>p. prev_out x = Some p \<longrightarrow> arc_store g p \<noteq> None" using pin live by auto
  have p4: "prev_out x = None \<longrightarrow> node_store g (source x) \<noteq> None" using nd by simp
  have p5: "\<forall>q. next_out x = Some q \<longrightarrow> arc_store g q \<noteq> None" using nin live by auto
  from unlink_out_effect [OF a p1 p2 p3 p4 p5] obtain g1 where
    g1: "unlink_out a g = Some g1"
    and F: "m_pNodeHead g1 = m_pNodeHead g" "m_pNodeRear g1 = m_pNodeRear g"
      "m_NodeList g1 = m_NodeList g" "m_ArcList g1 = m_ArcList g"
      "m_ValueList g1 = m_ValueList g" "value_store g1 = value_store g"
    and A1: "arc_store g1 a = Some x"
    and AY: "\<forall>y. y \<noteq> a \<longrightarrow> arc_store g1 y =
             map_option (\<lambda>r. r\<lparr>prev_out := if next_out x = Some y then prev_out x else prev_out r,
                               next_out := if prev_out x = Some y then next_out x else next_out r\<rparr>)
               (arc_store g y)"
    and NY: "\<forall>n. node_store g1 n =
             map_option (\<lambda>nd. if prev_out x = None \<and> n = source x
                               then nd\<lparr>first_out := next_out x\<rparr> else nd)
               (node_store g n)"
    by blast
  have lv: "(arc_store g1 y = None) = (arc_store g y = None)" for y
    using A1 a AY by (cases "y = a") auto
  have lo: "links_only g g1"
  proof -
    have "map_option (\<lambda>nd. (prev nd, nxt nd, m_Inputs nd, m_Outputs nd)) (node_store g1 n) =
          map_option (\<lambda>nd. (prev nd, nxt nd, m_Inputs nd, m_Outputs nd)) (node_store g n)" for n
      using NY by (cases "node_store g n") auto
    moreover have "\<exists>r. arc_store g y = Some r \<and> source r' = source r \<and> target r' = target r"
      if "arc_store g1 y = Some r'" for y r'
      using that A1 a AY by (cases "y = a") auto
    ultimately show ?thesis using F unfolding links_only_def by blast
  qed
  have I: "in_seg g1 n (ins n)" for n
  proof (rule in_seg_frame)
    show "in_seg g n (ins n)" using ins_ok by blast
    show "map_option first_in (node_store g1 n) = map_option first_in (node_store g n)"
      using NY by (cases "node_store g n") auto
    show "\<forall>y\<in>set (ins n). map_option (\<lambda>r. (prev_in r, next_in r)) (arc_store g1 y) =
                      map_option (\<lambda>r. (prev_in r, next_in r)) (arc_store g y)"
    proof
      fix y show "map_option (\<lambda>r. (prev_in r, next_in r)) (arc_store g1 y) =
                      map_option (\<lambda>r. (prev_in r, next_in r)) (arc_store g y)"
        using A1 a AY by (cases "y = a"; cases "arc_store g y") auto
    qed
  qed
  have O: "out_seg g1 n (if n = ?s then remove1 a (outs n) else outs n)" for n
  proof (cases "n = ?s")
    case False
    have disj: "y \<notin> set (xs @ a # ys)" if "y \<in> set (outs n)" for y
    proof
      assume "y \<in> set (xs @ a # ys)"
      then have "y \<in> set (outs ?s)" using sp by simp
      with own obtain r where "arc_store g y = Some r" "source r = ?s" by blast
      moreover from own that obtain r' where "arc_store g y = Some r'" "source r' = n" by blast
      ultimately show False using False by simp
    qed
    have "out_seg g1 n (outs n)"
    proof (rule out_seg_frame)
      show "out_seg g n (outs n)" using outs_ok by blast
      show "map_option first_out (node_store g1 n) = map_option first_out (node_store g n)"
        using NY False by (cases "node_store g n") auto
      show "\<forall>y\<in>set (outs n). map_option (\<lambda>r. (prev_out r, next_out r)) (arc_store g1 y) =
                      map_option (\<lambda>r. (prev_out r, next_out r)) (arc_store g y)"
      proof
        fix y assume y: "y \<in> set (outs n)"
        from disj [OF y] have "y \<noteq> a" "prev_out x \<noteq> Some y" "next_out x \<noteq> Some y"
          using pin nin by auto
        then show "map_option (\<lambda>r. (prev_out r, next_out r)) (arc_store g1 y) =
                      map_option (\<lambda>r. (prev_out r, next_out r)) (arc_store g y)"
          using AY by (cases "arc_store g y") auto
      qed
    qed
    with False show ?thesis by simp
  next
    case True
    have upd: "\<forall>y\<in>set (xs @ ys). \<exists>r r'. arc_store g y = Some r \<and> arc_store g1 y = Some r' \<and>
           prev_out r' = (if next_out x = Some y then prev_out x else prev_out r) \<and>
           next_out r' = (if prev_out x = Some y then next_out x else next_out r)"
    proof
      fix y assume y: "y \<in> set (xs @ ys)"
      then have "y \<noteq> a" using dist by auto
      moreover from y obtain r where "arc_store g y = Some r" using live [of y] by auto
      ultimately show "\<exists>r r'. arc_store g y = Some r \<and> arc_store g1 y = Some r' \<and>
           prev_out r' = (if next_out x = Some y then prev_out x else prev_out r) \<and>
           next_out r' = (if prev_out x = Some y then next_out x else next_out r)"
        using AY by auto
    qed
    have "dlseg (arc_store g1) prev_out next_out None
            (if xs = [] then next_out x else first_out nd) (xs @ ys) None"
      using seg' dist _ a upd by (rule dlseg_unlink) simp
    moreover have "node_store g1 ?s =
        Some (if prev_out x = None then nd\<lparr>first_out := next_out x\<rparr> else nd)"
      using NY nd by simp
    moreover have "prev_out x = None \<longleftrightarrow> xs = []" using px by simp
    moreover have "remove1 a (outs ?s) = xs @ ys"
      using sp dist by (simp add: remove1_append)
    ultimately show ?thesis using True by (cases "xs = []") (simp_all add: out_seg_def)
  qed
  from g1 I O A1 lv lo F(4) show ?thesis by blast
qed


lemma unlink_in_chains:
  assumes outs_ok: "\<forall>n. out_seg g n (outs n)" and ins_ok: "\<forall>n. in_seg g n (ins n)"
    and own: "\<forall>n. \<forall>b\<in>set (ins n). \<exists>r. arc_store g b = Some r \<and> target r = n"
    and a: "arc_store g a = Some x" and lk: "a \<in> set (ins (target x))"
  shows "\<exists>g1. unlink_in a g = Some g1 \<and>
           (\<forall>n. out_seg g1 n (outs n)) \<and>
           (\<forall>n. in_seg g1 n (if n = target x then remove1 a (ins n) else ins n)) \<and>
           arc_store g1 a = Some x \<and>
           (\<forall>y. (arc_store g1 y = None) = (arc_store g y = None)) \<and>
           links_only g g1 \<and> m_ArcList g1 = m_ArcList g"
proof -
  let ?s = "target x"
  have ne: "ins ?s \<noteq> []" using lk by auto
  have "in_seg g ?s (ins ?s)" using ins_ok by blast
  with ne obtain nd where nd: "node_store g ?s = Some nd"
    and seg: "dlseg (arc_store g) prev_in next_in None (first_in nd) (ins ?s) None"
    by (auto simp: in_seg_def split: option.splits)
  from lk obtain xs ys where sp: "ins ?s = xs @ a # ys" by (auto simp: in_set_conv_decomp)
  have seg': "dlseg (arc_store g) prev_in next_in None (first_in nd) (xs @ a # ys) None"
    using seg sp by simp
  have dist: "distinct (xs @ a # ys)" using seg' by (rule dlseg_distinct)
  have px: "prev_in x = (if xs = [] then None else Some (last xs))"
    using seg' a by (rule dlseg_prev)
  have nx: "next_in x = (if ys = [] then None else Some (hd ys))"
    using seg' a by (rule dlseg_next)
  have live: "arc_store g y \<noteq> None" if "y \<in> set (xs @ a # ys)" for y
    using seg' that by (rule dlseg_live)
  have pin: "z \<in> set xs" if "prev_in x = Some z" for z
    using that px by (auto split: if_splits)
  have nin: "z \<in> set ys" if "next_in x = Some z" for z
    using that nx by (auto split: if_splits)
  have p1: "prev_in x \<noteq> Some a" using pin dist by auto
  have p2: "next_in x \<noteq> Some a" using nin dist by auto
  have p3: "\<forall>p. prev_in x = Some p \<longrightarrow> arc_store g p \<noteq> None" using pin live by auto
  have p4: "prev_in x = None \<longrightarrow> node_store g (target x) \<noteq> None" using nd by simp
  have p5: "\<forall>q. next_in x = Some q \<longrightarrow> arc_store g q \<noteq> None" using nin live by auto
  from unlink_in_effect [OF a p1 p2 p3 p4 p5] obtain g1 where
    g1: "unlink_in a g = Some g1"
    and F: "m_pNodeHead g1 = m_pNodeHead g" "m_pNodeRear g1 = m_pNodeRear g"
      "m_NodeList g1 = m_NodeList g" "m_ArcList g1 = m_ArcList g"
      "m_ValueList g1 = m_ValueList g" "value_store g1 = value_store g"
    and A1: "arc_store g1 a = Some x"
    and AY: "\<forall>y. y \<noteq> a \<longrightarrow> arc_store g1 y =
             map_option (\<lambda>r. r\<lparr>prev_in := if next_in x = Some y then prev_in x else prev_in r,
                               next_in := if prev_in x = Some y then next_in x else next_in r\<rparr>)
               (arc_store g y)"
    and NY: "\<forall>n. node_store g1 n =
             map_option (\<lambda>nd. if prev_in x = None \<and> n = target x
                               then nd\<lparr>first_in := next_in x\<rparr> else nd)
               (node_store g n)"
    by blast
  have lv: "(arc_store g1 y = None) = (arc_store g y = None)" for y
    using A1 a AY by (cases "y = a") auto
  have lo: "links_only g g1"
  proof -
    have "map_option (\<lambda>nd. (prev nd, nxt nd, m_Inputs nd, m_Outputs nd)) (node_store g1 n) =
          map_option (\<lambda>nd. (prev nd, nxt nd, m_Inputs nd, m_Outputs nd)) (node_store g n)" for n
      using NY by (cases "node_store g n") auto
    moreover have "\<exists>r. arc_store g y = Some r \<and> target r' = target r \<and> source r' = source r"
      if "arc_store g1 y = Some r'" for y r'
      using that A1 a AY by (cases "y = a") auto
    ultimately show ?thesis using F unfolding links_only_def by blast
  qed
  have I: "out_seg g1 n (outs n)" for n
  proof (rule out_seg_frame)
    show "out_seg g n (outs n)" using outs_ok by blast
    show "map_option first_out (node_store g1 n) = map_option first_out (node_store g n)"
      using NY by (cases "node_store g n") auto
    show "\<forall>y\<in>set (outs n). map_option (\<lambda>r. (prev_out r, next_out r)) (arc_store g1 y) =
                      map_option (\<lambda>r. (prev_out r, next_out r)) (arc_store g y)"
    proof
      fix y show "map_option (\<lambda>r. (prev_out r, next_out r)) (arc_store g1 y) =
                      map_option (\<lambda>r. (prev_out r, next_out r)) (arc_store g y)"
        using A1 a AY by (cases "y = a"; cases "arc_store g y") auto
    qed
  qed
  have O: "in_seg g1 n (if n = ?s then remove1 a (ins n) else ins n)" for n
  proof (cases "n = ?s")
    case False
    have disj: "y \<notin> set (xs @ a # ys)" if "y \<in> set (ins n)" for y
    proof
      assume "y \<in> set (xs @ a # ys)"
      then have "y \<in> set (ins ?s)" using sp by simp
      with own obtain r where "arc_store g y = Some r" "target r = ?s" by blast
      moreover from own that obtain r' where "arc_store g y = Some r'" "target r' = n" by blast
      ultimately show False using False by simp
    qed
    have "in_seg g1 n (ins n)"
    proof (rule in_seg_frame)
      show "in_seg g n (ins n)" using ins_ok by blast
      show "map_option first_in (node_store g1 n) = map_option first_in (node_store g n)"
        using NY False by (cases "node_store g n") auto
      show "\<forall>y\<in>set (ins n). map_option (\<lambda>r. (prev_in r, next_in r)) (arc_store g1 y) =
                      map_option (\<lambda>r. (prev_in r, next_in r)) (arc_store g y)"
      proof
        fix y assume y: "y \<in> set (ins n)"
        from disj [OF y] have "y \<noteq> a" "prev_in x \<noteq> Some y" "next_in x \<noteq> Some y"
          using pin nin by auto
        then show "map_option (\<lambda>r. (prev_in r, next_in r)) (arc_store g1 y) =
                      map_option (\<lambda>r. (prev_in r, next_in r)) (arc_store g y)"
          using AY by (cases "arc_store g y") auto
      qed
    qed
    with False show ?thesis by simp
  next
    case True
    have upd: "\<forall>y\<in>set (xs @ ys). \<exists>r r'. arc_store g y = Some r \<and> arc_store g1 y = Some r' \<and>
           prev_in r' = (if next_in x = Some y then prev_in x else prev_in r) \<and>
           next_in r' = (if prev_in x = Some y then next_in x else next_in r)"
    proof
      fix y assume y: "y \<in> set (xs @ ys)"
      then have "y \<noteq> a" using dist by auto
      moreover from y obtain r where "arc_store g y = Some r" using live [of y] by auto
      ultimately show "\<exists>r r'. arc_store g y = Some r \<and> arc_store g1 y = Some r' \<and>
           prev_in r' = (if next_in x = Some y then prev_in x else prev_in r) \<and>
           next_in r' = (if prev_in x = Some y then next_in x else next_in r)"
        using AY by auto
    qed
    have "dlseg (arc_store g1) prev_in next_in None
            (if xs = [] then next_in x else first_in nd) (xs @ ys) None"
      using seg' dist _ a upd by (rule dlseg_unlink) simp
    moreover have "node_store g1 ?s =
        Some (if prev_in x = None then nd\<lparr>first_in := next_in x\<rparr> else nd)"
      using NY nd by simp
    moreover have "prev_in x = None \<longleftrightarrow> xs = []" using px by simp
    moreover have "remove1 a (ins ?s) = xs @ ys"
      using sp dist by (simp add: remove1_append)
    ultimately show ?thesis using True by (cases "xs = []") (simp_all add: in_seg_def)
  qed
  from g1 I O A1 lv lo F(4) show ?thesis by blast
qed


lemma out_seg_distinct: "out_seg g n as \<Longrightarrow> distinct as"
  by (auto simp: out_seg_def dlseg_distinct split: option.splits)

lemma in_seg_distinct: "in_seg g n as \<Longrightarrow> distinct as"
  by (auto simp: in_seg_def dlseg_distinct split: option.splits)

lemma links_only_remove_arc: "links_only g (remove_arc a g)"
  by (auto simp: links_only_def remove_arc_def split: if_splits)

lemma erase_arc_chains:
  assumes ok: "chains_ok g ins outs" and a: "arc_store g a = Some x"
    and lk: "a \<in> set (outs (source x))"
  shows "\<exists>g'. erase_arc a g = Some g' \<and>
           chains_ok g' (\<lambda>n. if n = target x then remove1 a (ins n) else ins n)
                        (\<lambda>n. if n = source x then remove1 a (outs n) else outs n) \<and>
           links_only g g' \<and> m_ArcList g' = remove1 a (m_ArcList g) \<and>
           arc_store g' a = (if a \<in> set (m_ArcList g) then None else Some x) \<and>
           (\<forall>y. y \<noteq> a \<longrightarrow> (arc_store g' y = None) = (arc_store g y = None))"
proof -
  let ?ins = "\<lambda>n. if n = target x then remove1 a (ins n) else ins n"
  let ?outs = "\<lambda>n. if n = source x then remove1 a (outs n) else outs n"
  have I: "\<forall>n. in_seg g n (ins n)" and O: "\<forall>n. out_seg g n (outs n)"
    and BO: "\<forall>n. \<forall>b\<in>set (outs n). \<exists>r. arc_store g b = Some r \<and> source r = n \<and> b \<in> set (ins (target r))"
    and BI: "\<forall>n. \<forall>b\<in>set (ins n). \<exists>r. arc_store g b = Some r \<and> target r = n \<and> b \<in> set (outs (source r))"
    using ok by (simp_all add: chains_ok_def)
  have own: "\<forall>n. \<forall>b\<in>set (outs n). \<exists>r. arc_store g b = Some r \<and> source r = n"
    using BO by blast
  have lki: "a \<in> set (ins (target x))" using BO lk a by fastforce
  from unlink_out_chains [OF I O own a lk] obtain g1 where
    g1: "unlink_out a g = Some g1" and I1: "\<forall>n. in_seg g1 n (ins n)"
    and O1: "\<forall>n. out_seg g1 n (?outs n)" and a1: "arc_store g1 a = Some x"
    and lv1: "\<forall>y. (arc_store g1 y = None) = (arc_store g y = None)"
    and lo1: "links_only g g1" and al1: "m_ArcList g1 = m_ArcList g"
    by blast
  have same1: "\<exists>r'. arc_store g1 b = Some r' \<and> source r' = source r \<and> target r' = target r"
    if "arc_store g b = Some r" for b r
  proof -
    from that lv1 obtain r' where r': "arc_store g1 b = Some r'" by (metis option.exhaust option.distinct(1))
    from links_only_arc [OF lo1 r'] that r' show ?thesis by simp
  qed
  have own1: "\<forall>n. \<forall>b\<in>set (ins n). \<exists>r. arc_store g1 b = Some r \<and> target r = n"
    using BI same1 by metis
  from unlink_in_chains [OF O1 I1 own1 a1 lki] obtain g2 where
    g2: "unlink_in a g1 = Some g2" and O2: "\<forall>n. out_seg g2 n (?outs n)"
    and I2: "\<forall>n. in_seg g2 n (?ins n)" and a2: "arc_store g2 a = Some x"
    and lv2: "\<forall>y. (arc_store g2 y = None) = (arc_store g1 y = None)"
    and lo2: "links_only g1 g2" and al2: "m_ArcList g2 = m_ArcList g1"
    by blast
  let ?g = "remove_arc a g2"
  have er: "erase_arc a g = Some ?g" using g1 g2 by (simp add: erase_arc_def)
  have lo: "links_only g ?g"
    using lo1 lo2 links_only_remove_arc links_only_trans by blast
  have same: "\<exists>r'. arc_store ?g b = Some r' \<and> source r' = source r \<and> target r' = target r"
    if "arc_store g b = Some r" "b \<noteq> a" for b r
  proof -
    from that lv1 lv2 obtain r' where "arc_store g2 b = Some r'"
      by (metis option.exhaust option.distinct(1))
    then have r': "arc_store ?g b = Some r'" using that(2) by (simp add: remove_arc_def)
    from links_only_arc [OF lo r'] that r' show ?thesis by simp
  qed
  have nin: "a \<notin> set (?ins n)" for n
  proof (cases "n = target x")
    case True
    have "distinct (ins n)" using I in_seg_distinct by blast
    then show ?thesis using True by simp
  next
    case False
    then show ?thesis using BI a by fastforce
  qed
  have nout: "a \<notin> set (?outs n)" for n
  proof (cases "n = source x")
    case True
    have "distinct (outs n)" using O out_seg_distinct by blast
    then show ?thesis using True by simp
  next
    case False
    then show ?thesis using BO a by fastforce
  qed
  have I3: "in_seg ?g n (?ins n)" for n
  proof (rule in_seg_frame)
    show "in_seg g2 n (?ins n)" using I2 by blast
    show "map_option first_in (node_store ?g n) = map_option first_in (node_store g2 n)"
      by (simp add: remove_arc_def)
    show "\<forall>y\<in>set (?ins n). map_option (\<lambda>r. (prev_in r, next_in r)) (arc_store ?g y) =
                      map_option (\<lambda>r. (prev_in r, next_in r)) (arc_store g2 y)"
      using nin [of n] by (auto simp: remove_arc_def)
  qed
  have O3: "out_seg ?g n (?outs n)" for n
  proof (rule out_seg_frame)
    show "out_seg g2 n (?outs n)" using O2 by blast
    show "map_option first_out (node_store ?g n) = map_option first_out (node_store g2 n)"
      by (simp add: remove_arc_def)
    show "\<forall>y\<in>set (?outs n). map_option (\<lambda>r. (prev_out r, next_out r)) (arc_store ?g y) =
                      map_option (\<lambda>r. (prev_out r, next_out r)) (arc_store g2 y)"
      using nout [of n] by (auto simp: remove_arc_def)
  qed
  have BO3: "\<exists>r. arc_store ?g b = Some r \<and> source r = n \<and> b \<in> set (?ins (target r))"
    if "b \<in> set (?outs n)" for n b
  proof -
    have ba: "b \<noteq> a" using that nout by blast
    have "b \<in> set (outs n)"
      using that by (cases "n = source x") (auto dest: set_remove1_subset [THEN subsetD])
    with BO obtain r where r: "arc_store g b = Some r" "source r = n" "b \<in> set (ins (target r))"
      by blast
    from same [OF r(1) ba] obtain r' where
      r': "arc_store ?g b = Some r'" "source r' = source r" "target r' = target r" by blast
    have "b \<in> set (?ins (target r))" using r(3) ba by auto
    with r r' show ?thesis by (auto split: if_splits)
  qed
  have BI3: "\<exists>r. arc_store ?g b = Some r \<and> target r = n \<and> b \<in> set (?outs (source r))"
    if "b \<in> set (?ins n)" for n b
  proof -
    have ba: "b \<noteq> a" using that nin by blast
    have "b \<in> set (ins n)"
      using that by (cases "n = target x") (auto dest: set_remove1_subset [THEN subsetD])
    with BI obtain r where r: "arc_store g b = Some r" "target r = n" "b \<in> set (outs (source r))"
      by blast
    from same [OF r(1) ba] obtain r' where
      r': "arc_store ?g b = Some r'" "source r' = source r" "target r' = target r" by blast
    have "b \<in> set (?outs (source r))" using r(3) ba by auto
    with r r' show ?thesis by (auto split: if_splits)
  qed
  have ok': "chains_ok ?g ?ins ?outs"
    unfolding chains_ok_def using I3 O3 BO3 BI3 by blast
  have al: "m_ArcList ?g = remove1 a (m_ArcList g)"
    using al1 al2 by (simp add: remove_arc_def remove1_idem)
  have aa: "arc_store ?g a = (if a \<in> set (m_ArcList g) then None else Some x)"
    using al1 al2 a2 by (simp add: remove_arc_def)
  have lv: "\<forall>y. y \<noteq> a \<longrightarrow> (arc_store ?g y = None) = (arc_store g y = None)"
    using lv1 lv2 by (simp add: remove_arc_def)
  from er ok' lo al aa lv show ?thesis by blast
qed

lemma chains_ok_cong:
  "chains_ok g ins outs \<Longrightarrow> \<forall>m. ins' m = ins m \<Longrightarrow> \<forall>m. outs' m = outs m \<Longrightarrow>
     chains_ok g ins' outs'"
proof -
  assume a: "chains_ok g ins outs" "\<forall>m. ins' m = ins m" "\<forall>m. outs' m = outs m"
  then have "ins' = ins" "outs' = outs" by auto
  with a(1) show ?thesis by simp
qed

lemma links_only_node:
  "links_only g g' \<Longrightarrow> (node_store g' n = None) = (node_store g n = None)"
proof -
  assume "links_only g g'"
  then have "map_option (\<lambda>nd. (prev nd, nxt nd, m_Inputs nd, m_Outputs nd)) (node_store g' n) =
             map_option (\<lambda>nd. (prev nd, nxt nd, m_Inputs nd, m_Outputs nd)) (node_store g n)"
    by (simp add: links_only_def)
  then show ?thesis by (cases "node_store g n"; cases "node_store g' n") simp_all
qed

lemma remove1_filter: "distinct xs \<Longrightarrow> remove1 a xs = filter (\<lambda>b. b \<noteq> a) xs"
  by (induction xs) (auto intro: filter_True [symmetric])

lemma chains_ok_in:
  "chains_ok g ins outs \<Longrightarrow> node_store g n = Some nd \<Longrightarrow>
     dlseg (arc_store g) prev_in next_in None (first_in nd) (ins n) None"
proof -
  assume "chains_ok g ins outs" and nd: "node_store g n = Some nd"
  then have "\<forall>m. in_seg g m (ins m)" by (simp add: chains_ok_def)
  then have "in_seg g n (ins n)" by (rule spec)
  with nd show ?thesis by (simp add: in_seg_def)
qed

lemma chains_ok_out:
  "chains_ok g ins outs \<Longrightarrow> node_store g n = Some nd \<Longrightarrow>
     dlseg (arc_store g) prev_out next_out None (first_out nd) (outs n) None"
proof -
  assume "chains_ok g ins outs" and nd: "node_store g n = Some nd"
  then have "\<forall>m. out_seg g m (outs m)" by (simp add: chains_ok_def)
  then have "out_seg g n (outs n)" by (rule spec)
  with nd show ?thesis by (simp add: out_seg_def)
qed

lemma chains_ok_BI:
  "chains_ok g ins outs \<Longrightarrow> b \<in> set (ins m) \<Longrightarrow>
     \<exists>r. arc_store g b = Some r \<and> target r = m \<and> b \<in> set (outs (source r))"
proof -
  assume "chains_ok g ins outs" and b: "b \<in> set (ins m)"
  then have "\<forall>n. \<forall>a\<in>set (ins n). \<exists>x. arc_store g a = Some x \<and> target x = n \<and> a \<in> set (outs (source x))"
    by (simp add: chains_ok_def)
  with b show ?thesis by blast
qed

lemma chains_ok_BO:
  "chains_ok g ins outs \<Longrightarrow> b \<in> set (outs m) \<Longrightarrow>
     \<exists>r. arc_store g b = Some r \<and> source r = m \<and> b \<in> set (ins (target r))"
proof -
  assume "chains_ok g ins outs" and b: "b \<in> set (outs m)"
  then have "\<forall>n. \<forall>a\<in>set (outs n). \<exists>x. arc_store g a = Some x \<and> source x = n \<and> a \<in> set (ins (target x))"
    by (simp add: chains_ok_def)
  with b show ?thesis by blast
qed

lemma chains_ok_distinct:
  "chains_ok g ins outs \<Longrightarrow> distinct (ins m) \<and> distinct (outs m)"
proof -
  assume "chains_ok g ins outs"
  then have "\<forall>n. in_seg g n (ins n)" "\<forall>n. out_seg g n (outs n)"
    by (simp_all add: chains_ok_def)
  then have "in_seg g m (ins m)" "out_seg g m (outs m)" by blast+
  then show ?thesis using in_seg_distinct out_seg_distinct by blast
qed

lemma erase_fan_in_chains:
  assumes "chains_ok g ins outs" and "node_store g n = Some nd"
  shows "\<exists>g'. erase_fan_in (first_in nd) g = Some g' \<and>
           chains_ok g' (\<lambda>m. if m = n then [] else ins m)
                        (\<lambda>m. filter (\<lambda>b. b \<notin> set (ins n)) (outs m)) \<and>
           links_only g g' \<and> m_ArcList g' = fold remove1 (ins n) (m_ArcList g) \<and>
           (\<forall>y. (arc_store g' y = None) =
                (arc_store g y = None \<or> y \<in> set (ins n) \<and> y \<in> set (m_ArcList g)))"
  using assms
proof (induction "ins n" arbitrary: g ins outs nd)
  case Nil
  let ?A = "\<lambda>m. if m = n then [] else ins m"
  let ?B = "\<lambda>m. filter (\<lambda>b. b \<notin> set (ins n)) (outs m)"
  have insn: "ins n = []" using Nil.hyps by simp
  have "node_store g n = Some nd" by (rule Nil.prems(2))
  with Nil.prems(1) have "dlseg (arc_store g) prev_in next_in None (first_in nd) (ins n) None"
    by (rule chains_ok_in)
  with insn have fi: "first_in nd = None" by simp
  have "chains_ok g ?A ?B"
    using Nil.prems(1) by (rule chains_ok_cong) (simp_all add: insn)
  then show ?case
    using fi insn by (subst erase_fan_in.simps) (simp add: links_only_refl)
next
  case (Cons a rest)
  note ok = Cons.prems(1)
  let ?A = "\<lambda>m. if m = n then [] else ins m"
  let ?B = "\<lambda>m. filter (\<lambda>b. b \<notin> set (ins n)) (outs m)"
  have insn: "ins n = a # rest" using Cons.hyps(2) by simp
  have seg: "dlseg (arc_store g) prev_in next_in None (first_in nd) (a # rest) None"
    using chains_ok_in [OF ok Cons.prems(2)] insn by simp
  then have fi: "first_in nd = Some a" by simp
  have "a \<in> set (ins n)" using insn by simp
  from chains_ok_BI [OF ok this] obtain x where x: "arc_store g a = Some x" "target x = n"
    and lk: "a \<in> set (outs (source x))"
    by blast
  have nx: "next_in x = (if rest = [] then None else Some (hd rest))"
    using dlseg_next [of "arc_store g" prev_in next_in None "first_in nd" "[]" a rest None x] seg x(1)
    by simp
  let ?A1 = "\<lambda>m. if m = target x then remove1 a (ins m) else ins m"
  let ?B1 = "\<lambda>m. if m = source x then remove1 a (outs m) else outs m"
  from erase_arc_chains [OF ok x(1) lk] obtain g1 where
    g1: "erase_arc a g = Some g1" and ok1: "chains_ok g1 ?A1 ?B1"
    and lo1: "links_only g g1" and al1: "m_ArcList g1 = remove1 a (m_ArcList g)"
    and aa1: "arc_store g1 a = (if a \<in> set (m_ArcList g) then None else Some x)"
    and lv1: "\<forall>y. y \<noteq> a \<longrightarrow> (arc_store g1 y = None) = (arc_store g y = None)"
    by blast
  have A1n: "?A1 n = rest" using x(2) insn by simp
  obtain nd1 where nd1: "node_store g1 n = Some nd1"
    using links_only_node [OF lo1, of n] Cons.prems(2) by auto
  have "dlseg (arc_store g1) prev_in next_in None (first_in nd1) (?A1 n) None"
    using ok1 nd1 by (rule chains_ok_in)
  then have "dlseg (arc_store g1) prev_in next_in None (first_in nd1) rest None"
    using A1n by simp
  then have "first_in nd1 = (if rest = [] then None else Some (hd rest))"
    by (cases rest) auto
  with nx have fi1: "first_in nd1 = next_in x" by simp
  let ?A2 = "\<lambda>m. if m = n then [] else ?A1 m"
  let ?B2 = "\<lambda>m. filter (\<lambda>b. b \<notin> set rest) (?B1 m)"
  from Cons.hyps(1) [OF A1n [symmetric] ok1 nd1] obtain g' where
    g': "erase_fan_in (first_in nd1) g1 = Some g'"
    and ok': "chains_ok g' ?A2 ?B2"
    and lo': "links_only g1 g'" and al': "m_ArcList g' = fold remove1 rest (m_ArcList g1)"
    and lv': "\<forall>y. (arc_store g' y = None) =
                (arc_store g1 y = None \<or> y \<in> set rest \<and> y \<in> set (m_ArcList g1))"
    unfolding A1n by blast
  have run: "erase_fan_in (first_in nd) g = Some g'"
    using fi x(1) g1 g' fi1 by (subst erase_fan_in.simps) simp
  have dist: "distinct (a # rest)" using seg by (rule dlseg_distinct)
  have e1: "\<forall>m. ?A m = ?A2 m"
    using x(2) by simp
  have e2: "\<forall>m. ?B m = ?B2 m"
  proof
    fix m
    show "?B m = ?B2 m"
    proof (cases "m = source x")
      case True
      have "distinct (outs m)" using chains_ok_distinct [OF ok] by blast
      then have "remove1 a (outs m) = filter (\<lambda>b. b \<noteq> a) (outs m)" by (rule remove1_filter)
      then show ?thesis using True insn by simp
    next
      case False
      have na: "a \<notin> set (outs m)"
      proof
        assume "a \<in> set (outs m)"
        from chains_ok_BO [OF ok this] x(1) False show False by auto
      qed
      have "filter (\<lambda>b. b \<notin> set (ins n)) (outs m) = filter (\<lambda>b. b \<notin> set rest) (outs m)"
      proof (rule filter_cong)
        show "outs m = outs m" by (rule refl)
      next
        fix b assume "b \<in> set (outs m)"
        with na have "b \<noteq> a" by auto
        then show "(b \<notin> set (ins n)) = (b \<notin> set rest)" using insn by simp
      qed
      then show ?thesis using False by simp
    qed
  qed
  have okf: "chains_ok g' ?A ?B"
    using ok' e1 e2 by (rule chains_ok_cong)
  have lo: "links_only g g'" using lo1 lo' by (rule links_only_trans)
  have al: "m_ArcList g' = fold remove1 (ins n) (m_ArcList g)"
    using al' al1 insn by simp
  have lv: "\<forall>y. (arc_store g' y = None) =
                (arc_store g y = None \<or> y \<in> set (ins n) \<and> y \<in> set (m_ArcList g))"
  proof
    fix y
    show "(arc_store g' y = None) =
                (arc_store g y = None \<or> y \<in> set (ins n) \<and> y \<in> set (m_ArcList g))"
    proof (cases "y = a")
      case True
      then have "y \<notin> set rest" using dist by simp
      then show ?thesis using True lv' aa1 x(1) insn by simp
    next
      case False
      then show ?thesis using lv' lv1 al1 insn by (simp add: in_set_remove1)
    qed
  qed
  from run okf lo al lv show ?case by (intro exI conjI)
qed

lemma erase_arc_chains_in:
  assumes ok: "chains_ok g ins outs" and a: "arc_store g a = Some x"
    and lk: "a \<in> set (ins (target x))"
  shows "\<exists>g'. erase_arc a g = Some g' \<and>
           chains_ok g' (\<lambda>n. if n = target x then remove1 a (ins n) else ins n)
                        (\<lambda>n. if n = source x then remove1 a (outs n) else outs n) \<and>
           links_only g g' \<and> m_ArcList g' = remove1 a (m_ArcList g) \<and>
           arc_store g' a = (if a \<in> set (m_ArcList g) then None else Some x) \<and>
           (\<forall>y. y \<noteq> a \<longrightarrow> (arc_store g' y = None) = (arc_store g y = None))"
proof -
  from chains_ok_BI [OF ok lk] a have "a \<in> set (outs (source x))" by auto
  with ok a show ?thesis by (rule erase_arc_chains)
qed

lemma erase_fan_out_chains:
  assumes "chains_ok g ins outs" and "node_store g n = Some nd"
  shows "\<exists>g'. erase_fan_out (first_out nd) g = Some g' \<and>
           chains_ok g' (\<lambda>m. filter (\<lambda>b. b \<notin> set (outs n)) (ins m))
                        (\<lambda>m. if m = n then [] else outs m) \<and>
           links_only g g' \<and> m_ArcList g' = fold remove1 (outs n) (m_ArcList g) \<and>
           (\<forall>y. (arc_store g' y = None) =
                (arc_store g y = None \<or> y \<in> set (outs n) \<and> y \<in> set (m_ArcList g)))"
  using assms
proof (induction "outs n" arbitrary: g ins outs nd)
  case Nil
  let ?A = "\<lambda>m. if m = n then [] else outs m"
  let ?B = "\<lambda>m. filter (\<lambda>b. b \<notin> set (outs n)) (ins m)"
  have insn: "outs n = []" using Nil.hyps by simp
  have "node_store g n = Some nd" by (rule Nil.prems(2))
  with Nil.prems(1) have "dlseg (arc_store g) prev_out next_out None (first_out nd) (outs n) None"
    by (rule chains_ok_out)
  with insn have fi: "first_out nd = None" by simp
  have "chains_ok g ?B ?A"
    using Nil.prems(1) by (rule chains_ok_cong) (simp_all add: insn)
  then show ?case
    using fi insn by (subst erase_fan_out.simps) (simp add: links_only_refl)
next
  case (Cons a rest)
  note ok = Cons.prems(1)
  let ?A = "\<lambda>m. if m = n then [] else outs m"
  let ?B = "\<lambda>m. filter (\<lambda>b. b \<notin> set (outs n)) (ins m)"
  have insn: "outs n = a # rest" using Cons.hyps(2) by simp
  have seg: "dlseg (arc_store g) prev_out next_out None (first_out nd) (a # rest) None"
    using chains_ok_out [OF ok Cons.prems(2)] insn by simp
  then have fi: "first_out nd = Some a" by simp
  have "a \<in> set (outs n)" using insn by simp
  from chains_ok_BO [OF ok this] obtain x where x: "arc_store g a = Some x" "source x = n"
    and lk: "a \<in> set (ins (target x))"
    by blast
  have nx: "next_out x = (if rest = [] then None else Some (hd rest))"
    using dlseg_next [of "arc_store g" prev_out next_out None "first_out nd" "[]" a rest None x] seg x(1)
    by simp
  let ?A1 = "\<lambda>m. if m = source x then remove1 a (outs m) else outs m"
  let ?B1 = "\<lambda>m. if m = target x then remove1 a (ins m) else ins m"
  from erase_arc_chains_in [OF ok x(1) lk] obtain g1 where
    g1: "erase_arc a g = Some g1" and ok1: "chains_ok g1 ?B1 ?A1"
    and lo1: "links_only g g1" and al1: "m_ArcList g1 = remove1 a (m_ArcList g)"
    and aa1: "arc_store g1 a = (if a \<in> set (m_ArcList g) then None else Some x)"
    and lv1: "\<forall>y. y \<noteq> a \<longrightarrow> (arc_store g1 y = None) = (arc_store g y = None)"
    by blast
  have A1n: "?A1 n = rest" using x(2) insn by simp
  obtain nd1 where nd1: "node_store g1 n = Some nd1"
    using links_only_node [OF lo1, of n] Cons.prems(2) by auto
  have "dlseg (arc_store g1) prev_out next_out None (first_out nd1) (?A1 n) None"
    using ok1 nd1 by (rule chains_ok_out)
  then have "dlseg (arc_store g1) prev_out next_out None (first_out nd1) rest None"
    using A1n by simp
  then have "first_out nd1 = (if rest = [] then None else Some (hd rest))"
    by (cases rest) auto
  with nx have fi1: "first_out nd1 = next_out x" by simp
  let ?A2 = "\<lambda>m. if m = n then [] else ?A1 m"
  let ?B2 = "\<lambda>m. filter (\<lambda>b. b \<notin> set rest) (?B1 m)"
  from Cons.hyps(1) [OF A1n [symmetric] ok1 nd1] obtain g' where
    g': "erase_fan_out (first_out nd1) g1 = Some g'"
    and ok': "chains_ok g' ?B2 ?A2"
    and lo': "links_only g1 g'" and al': "m_ArcList g' = fold remove1 rest (m_ArcList g1)"
    and lv': "\<forall>y. (arc_store g' y = None) =
                (arc_store g1 y = None \<or> y \<in> set rest \<and> y \<in> set (m_ArcList g1))"
    unfolding A1n by blast
  have run: "erase_fan_out (first_out nd) g = Some g'"
    using fi x(1) g1 g' fi1 by (subst erase_fan_out.simps) simp
  have dist: "distinct (a # rest)" using seg by (rule dlseg_distinct)
  have e1: "\<forall>m. ?A m = ?A2 m"
    using x(2) by simp
  have e2: "\<forall>m. ?B m = ?B2 m"
  proof
    fix m
    show "?B m = ?B2 m"
    proof (cases "m = target x")
      case True
      have "distinct (ins m)" using chains_ok_distinct [OF ok] by blast
      then have "remove1 a (ins m) = filter (\<lambda>b. b \<noteq> a) (ins m)" by (rule remove1_filter)
      then show ?thesis using True insn by simp
    next
      case False
      have na: "a \<notin> set (ins m)"
      proof
        assume "a \<in> set (ins m)"
        from chains_ok_BI [OF ok this] x(1) False show False by auto
      qed
      have "filter (\<lambda>b. b \<notin> set (outs n)) (ins m) = filter (\<lambda>b. b \<notin> set rest) (ins m)"
      proof (rule filter_cong)
        show "ins m = ins m" by (rule refl)
      next
        fix b assume "b \<in> set (ins m)"
        with na have "b \<noteq> a" by auto
        then show "(b \<notin> set (outs n)) = (b \<notin> set rest)" using insn by simp
      qed
      then show ?thesis using False by simp
    qed
  qed
  have okf: "chains_ok g' ?B ?A"
    using ok' e2 e1 by (rule chains_ok_cong)
  have lo: "links_only g g'" using lo1 lo' by (rule links_only_trans)
  have al: "m_ArcList g' = fold remove1 (outs n) (m_ArcList g)"
    using al' al1 insn by simp
  have lv: "\<forall>y. (arc_store g' y = None) =
                (arc_store g y = None \<or> y \<in> set (outs n) \<and> y \<in> set (m_ArcList g))"
  proof
    fix y
    show "(arc_store g' y = None) =
                (arc_store g y = None \<or> y \<in> set (outs n) \<and> y \<in> set (m_ArcList g))"
    proof (cases "y = a")
      case True
      then have "y \<notin> set rest" using dist by simp
      then show ?thesis using True lv' aa1 x(1) insn by simp
    next
      case False
      then show ?thesis using lv' lv1 al1 insn by (simp add: in_set_remove1)
    qed
  qed
  from run okf lo al lv show ?case by (intro exI conjI)
qed

text \<open>
  Invariant 1 of the data model: the global sequence \<open>ns\<close> is a doubly linked list from
  \<open>m_pNodeHead\<close> to \<open>nullptr\<close>, and \<open>m_pNodeRear\<close> is its last node.
\<close>

definition seq_ok :: "graph \<Rightarrow> nat list \<Rightarrow> bool" where
  "seq_ok g ns \<longleftrightarrow>
     dlseg (node_store g) prev nxt None (m_pNodeHead g) ns None \<and>
     m_pNodeRear g = (if ns = [] then None else Some (last ns))"

text \<open>
  Walking a fan-in chain with \<open>getNextIn()\<close> and a fan-out chain with \<open>getNextOut()\<close>, as
  the loops of erase(ComputeOperator) do, without erasing.
\<close>

partial_function (option) walk_in :: "graph \<Rightarrow> nat option \<Rightarrow> nat list option" where
  "walk_in g p =
     (case p of
        None \<Rightarrow> Some []
      | Some a \<Rightarrow>
          (case arc_store g a of
             None \<Rightarrow> None
           | Some x \<Rightarrow> Option.bind (walk_in g (next_in x)) (\<lambda>r. Some (a # r))))"

partial_function (option) walk_out :: "graph \<Rightarrow> nat option \<Rightarrow> nat list option" where
  "walk_out g p =
     (case p of
        None \<Rightarrow> Some []
      | Some a \<Rightarrow>
          (case arc_store g a of
             None \<Rightarrow> None
           | Some x \<Rightarrow> Option.bind (walk_out g (next_out x)) (\<lambda>r. Some (a # r))))"

declare walk_in.simps [code]
declare walk_out.simps [code]

lemma walk_in_dlseg:
  "dlseg (arc_store g) prev_in next_in pr p as None \<Longrightarrow> walk_in g p = Some as"
proof (induction as arbitrary: pr p)
  case Nil
  then show ?case by (subst walk_in.simps) simp
next
  case (Cons a as)
  then show ?case by (subst walk_in.simps) (auto split: option.splits)
qed

lemma walk_out_dlseg:
  "dlseg (arc_store g) prev_out next_out pr p as None \<Longrightarrow> walk_out g p = Some as"
proof (induction as arbitrary: pr p)
  case Nil
  then show ?case by (subst walk_out.simps) simp
next
  case (Cons a as)
  then show ?case by (subst walk_out.simps) (auto split: option.splits)
qed

lemma traverse_dlseg:
  "dlseg (node_store g) prev nxt pr p ns None \<Longrightarrow> traverse g p = Some ns"
proof (induction ns arbitrary: pr p)
  case Nil
  then show ?case by (subst traverse.simps) simp
next
  case (Cons a as)
  then show ?case by (subst traverse.simps) (auto split: option.splits)
qed

lemma last_remove1_snoc:
  assumes "distinct (xs @ a # ys)"
  shows "remove1 a (xs @ a # ys) = xs @ ys"
  using assms by (simp add: remove1_append)

lemma unlink_node_seq:
  assumes ok: "seq_ok g ns" and n: "n \<in> set ns"
  shows "\<exists>g1. unlink_node n g = Some g1 \<and> seq_ok g1 (remove1 n ns) \<and>
           arc_store g1 = arc_store g \<and> m_ArcList g1 = m_ArcList g \<and>
           m_NodeList g1 = m_NodeList g \<and> m_ValueList g1 = m_ValueList g \<and>
           value_store g1 = value_store g \<and>
           (\<forall>y. map_option (\<lambda>r. (first_in r, first_out r, m_Inputs r, m_Outputs r)) (node_store g1 y) =
                map_option (\<lambda>r. (first_in r, first_out r, m_Inputs r, m_Outputs r)) (node_store g y))"
proof -
  have seg: "dlseg (node_store g) prev nxt None (m_pNodeHead g) ns None"
    and rear: "m_pNodeRear g = (if ns = [] then None else Some (last ns))"
    using ok by (simp_all add: seq_ok_def)
  from n obtain xs ys where sp: "ns = xs @ n # ys" by (auto simp: in_set_conv_decomp)
  have seg': "dlseg (node_store g) prev nxt None (m_pNodeHead g) (xs @ n # ys) None"
    using seg sp by simp
  have dist: "distinct (xs @ n # ys)" using seg' by (rule dlseg_distinct)
  obtain x where x: "node_store g n = Some x"
    using dlseg_live [OF seg n] by auto
  have px: "prev x = (if xs = [] then None else Some (last xs))"
    using seg' x by (rule dlseg_prev)
  have nx: "nxt x = (if ys = [] then None else Some (hd ys))"
    using seg' x by (rule dlseg_next)
  have live: "node_store g y \<noteq> None" if "y \<in> set (xs @ n # ys)" for y
    using seg' that by (rule dlseg_live)
  have pin: "z \<in> set xs" if "prev x = Some z" for z
    using that px by (auto split: if_splits)
  have nin: "z \<in> set ys" if "nxt x = Some z" for z
    using that nx by (auto split: if_splits)
  have p1: "prev x \<noteq> Some n" using pin dist by auto
  have p2: "nxt x \<noteq> Some n" using nin dist by auto
  have p3: "\<forall>p. prev x = Some p \<longrightarrow> node_store g p \<noteq> None" using pin live by auto
  have p5: "\<forall>q. nxt x = Some q \<longrightarrow> node_store g q \<noteq> None" using nin live by auto
  from unlink_node_effect [OF x p1 p2 p3 p5] obtain g1 where
    g1: "unlink_node n g = Some g1"
    and H: "m_pNodeHead g1 = (if prev x = None then nxt x else m_pNodeHead g)"
    and R: "m_pNodeRear g1 = (if nxt x = None then prev x else m_pNodeRear g)"
    and F: "m_NodeList g1 = m_NodeList g" "m_ArcList g1 = m_ArcList g"
      "m_ValueList g1 = m_ValueList g" "value_store g1 = value_store g"
      "arc_store g1 = arc_store g"
    and N1: "node_store g1 n = Some x"
    and NY: "\<forall>y. y \<noteq> n \<longrightarrow> node_store g1 y =
             map_option (\<lambda>r. r\<lparr>prev := if nxt x = Some y then prev x else prev r,
                               nxt := if prev x = Some y then nxt x else nxt r\<rparr>)
               (node_store g y)"
    by blast
  have upd: "\<forall>y\<in>set (xs @ ys). \<exists>r r'. node_store g y = Some r \<and> node_store g1 y = Some r' \<and>
           prev r' = (if nxt x = Some y then prev x else prev r) \<and>
           nxt r' = (if prev x = Some y then nxt x else nxt r)"
  proof
    fix y assume y: "y \<in> set (xs @ ys)"
    then have "y \<noteq> n" using dist by auto
    moreover from y obtain r where "node_store g y = Some r" using live [of y] by auto
    ultimately show "\<exists>r r'. node_store g y = Some r \<and> node_store g1 y = Some r' \<and>
           prev r' = (if nxt x = Some y then prev x else prev r) \<and>
           nxt r' = (if prev x = Some y then nxt x else nxt r)"
      using NY by auto
  qed
  have "dlseg (node_store g1) prev nxt None
            (if xs = [] then nxt x else m_pNodeHead g) (xs @ ys) None"
    using seg' dist _ x upd by (rule dlseg_unlink) simp
  moreover have pn: "prev x = None \<longleftrightarrow> xs = []" using px by simp
  moreover have rm: "remove1 n ns = xs @ ys"
    using sp dist by (simp add: remove1_append)
  ultimately have S: "dlseg (node_store g1) prev nxt None (m_pNodeHead g1) (remove1 n ns) None"
    using H by simp
  have nn: "nxt x = None \<longleftrightarrow> ys = []" using nx by simp
  have RR: "m_pNodeRear g1 = (if remove1 n ns = [] then None else Some (last (remove1 n ns)))"
  proof (cases "ys = []")
    case True
    then show ?thesis using R nn px rm by simp
  next
    case False
    then show ?thesis using R nn rear sp rm by simp
  qed
  have K: "map_option (\<lambda>r. (first_in r, first_out r, m_Inputs r, m_Outputs r)) (node_store g1 y) =
           map_option (\<lambda>r. (first_in r, first_out r, m_Inputs r, m_Outputs r)) (node_store g y)" for y
    using N1 x NY by (cases "y = n"; cases "node_store g y") auto
  have KK: "\<forall>y. map_option (\<lambda>r. (first_in r, first_out r, m_Inputs r, m_Outputs r)) (node_store g1 y) =
           map_option (\<lambda>r. (first_in r, first_out r, m_Inputs r, m_Outputs r)) (node_store g y)"
    using K by blast
  have "seq_ok g1 (remove1 n ns)" using S RR by (simp add: seq_ok_def)
  with g1 F KK show ?thesis by (intro exI [of _ g1] conjI)
qed

lemma chains_okI:
  assumes "\<forall>n. in_seg g n (ins n)" and "\<forall>n. out_seg g n (outs n)"
    and "\<forall>n. \<forall>a\<in>set (outs n). \<exists>x. arc_store g a = Some x \<and> source x = n \<and> a \<in> set (ins (target x))"
    and "\<forall>n. \<forall>a\<in>set (ins n). \<exists>x. arc_store g a = Some x \<and> target x = n \<and> a \<in> set (outs (source x))"
  shows "chains_ok g ins outs"
  unfolding chains_ok_def using assms by (intro conjI)

lemma chains_okD:
  assumes "chains_ok g ins outs"
  shows "\<forall>n. in_seg g n (ins n)" and "\<forall>n. out_seg g n (outs n)"
    and "\<forall>n. \<forall>a\<in>set (outs n). \<exists>x. arc_store g a = Some x \<and> source x = n \<and> a \<in> set (ins (target x))"
    and "\<forall>n. \<forall>a\<in>set (ins n). \<exists>x. arc_store g a = Some x \<and> target x = n \<and> a \<in> set (outs (source x))"
  using assms by (simp_all add: chains_ok_def)

lemma chains_ok_frame:
  assumes "chains_ok g ins outs" and "arc_store g' = arc_store g"
    and "\<forall>y. map_option (\<lambda>r. (first_in r, first_out r, m_Inputs r, m_Outputs r)) (node_store g' y) =
             map_option (\<lambda>r. (first_in r, first_out r, m_Inputs r, m_Outputs r)) (node_store g y)"
  shows "chains_ok g' ins outs"
proof -
  have I: "\<forall>m. in_seg g m (ins m)" and O: "\<forall>m. out_seg g m (outs m)"
    using assms(1) by (simp_all add: chains_ok_def)
  have K: "map_option (\<lambda>r. (first_in r, first_out r, m_Inputs r, m_Outputs r)) (node_store g' y) =
           map_option (\<lambda>r. (first_in r, first_out r, m_Inputs r, m_Outputs r)) (node_store g y)" for y
    using assms(3) by blast
  have fi: "map_option first_in (node_store g' m) = map_option first_in (node_store g m)" for m
    using K [of m] by (cases "node_store g m"; cases "node_store g' m") simp_all
  have fo: "map_option first_out (node_store g' m) = map_option first_out (node_store g m)" for m
    using K [of m] by (cases "node_store g m"; cases "node_store g' m") simp_all
  have I': "in_seg g' m (ins m)" for m
  proof (rule in_seg_frame [of g m])
    show "in_seg g m (ins m)" using I by blast
    show "map_option first_in (node_store g' m) = map_option first_in (node_store g m)"
      by (rule fi)
    show "\<forall>y\<in>set (ins m). map_option (\<lambda>r. (prev_in r, next_in r)) (arc_store g' y) =
                      map_option (\<lambda>r. (prev_in r, next_in r)) (arc_store g y)"
      by (simp add: assms(2))
  qed
  have O': "out_seg g' m (outs m)" for m
  proof (rule out_seg_frame [of g m])
    show "out_seg g m (outs m)" using O by blast
    show "map_option first_out (node_store g' m) = map_option first_out (node_store g m)"
      by (rule fo)
    show "\<forall>y\<in>set (outs m). map_option (\<lambda>r. (prev_out r, next_out r)) (arc_store g' y) =
                      map_option (\<lambda>r. (prev_out r, next_out r)) (arc_store g y)"
      by (simp add: assms(2))
  qed
  have "\<forall>m. in_seg g' m (ins m)" "\<forall>m. out_seg g' m (outs m)" using I' O' by blast+
  then show ?thesis
    using chains_okD(3,4) [OF assms(1)] unfolding assms(2) [symmetric] by (rule chains_okI)
qed

lemma chains_ok_delete_node:
  assumes "chains_ok g ins outs" and "ins n = []" and "outs n = []"
  shows "chains_ok (g\<lparr>m_NodeList := X, node_store := (node_store g)(n := None)\<rparr>) ins outs"
proof -
  let ?g = "g\<lparr>m_NodeList := X, node_store := (node_store g)(n := None)\<rparr>"
  have I: "\<forall>m. in_seg g m (ins m)" and O: "\<forall>m. out_seg g m (outs m)"
    using assms(1) by (simp_all add: chains_ok_def)
  have I': "in_seg ?g m (ins m)" for m
  proof (cases "m = n")
    case True
    then show ?thesis using assms(2) by (simp add: in_seg_def)
  next
    case False
    have "in_seg g m (ins m)" using I by blast
    then show ?thesis using False by (auto simp: in_seg_def split: option.splits)
  qed
  have O': "out_seg ?g m (outs m)" for m
  proof (cases "m = n")
    case True
    then show ?thesis using assms(3) by (simp add: out_seg_def)
  next
    case False
    have "out_seg g m (outs m)" using O by blast
    then show ?thesis using False by (auto simp: out_seg_def split: option.splits)
  qed
  have "\<forall>m. in_seg ?g m (ins m)" "\<forall>m. out_seg ?g m (outs m)" using I' O' by blast+
  moreover have "arc_store ?g = arc_store g" by simp
  ultimately show ?thesis
    using chains_okD(3,4) [OF assms(1)] by (intro chains_okI) simp_all
qed

lemma in_set_fold_remove1:
  "y \<notin> set xs \<Longrightarrow> (y \<in> set (fold remove1 xs L)) = (y \<in> set L)"
  by (induction xs arbitrary: L) (auto simp: in_set_remove1)

lemma seq_ok_live: "seq_ok g ns \<Longrightarrow> n \<in> set ns \<Longrightarrow> node_store g n \<noteq> None"
proof -
  assume "seq_ok g ns" and n: "n \<in> set ns"
  then have "dlseg (node_store g) prev nxt None (m_pNodeHead g) ns None"
    by (simp add: seq_ok_def)
  then show ?thesis using n by (rule dlseg_live)
qed

lemma seq_ok_distinct: "seq_ok g ns \<Longrightarrow> distinct ns"
proof -
  assume "seq_ok g ns"
  then have "dlseg (node_store g) prev nxt None (m_pNodeHead g) ns None"
    by (simp add: seq_ok_def)
  then show ?thesis by (rule dlseg_distinct)
qed

lemma seq_ok_links_only:
  assumes "seq_ok g ns" and "links_only g g'"
  shows "seq_ok g' ns"
proof -
  have seg: "dlseg (node_store g) prev nxt None (m_pNodeHead g) ns None"
    and rear: "m_pNodeRear g = (if ns = [] then None else Some (last ns))"
    using assms(1) by (simp_all add: seq_ok_def)
  have K: "map_option (\<lambda>nd. (prev nd, nxt nd, m_Inputs nd, m_Outputs nd)) (node_store g' y) =
           map_option (\<lambda>nd. (prev nd, nxt nd, m_Inputs nd, m_Outputs nd)) (node_store g y)" for y
    using assms(2) by (simp add: links_only_def)
  have "\<forall>y\<in>set ns. \<exists>r r'. node_store g y = Some r \<and> node_store g' y = Some r' \<and>
          prev r' = prev r \<and> nxt r' = nxt r"
  proof
    fix y assume "y \<in> set ns"
    with seg obtain r where r: "node_store g y = Some r" using dlseg_live by fastforce
    with K [of y] obtain r' where "node_store g' y = Some r'" "prev r' = prev r" "nxt r' = nxt r"
      by (cases "node_store g' y") auto
    with r show "\<exists>r r'. node_store g y = Some r \<and> node_store g' y = Some r' \<and>
          prev r' = prev r \<and> nxt r' = nxt r" by simp
  qed
  then have "dlseg (node_store g') prev nxt None (m_pNodeHead g) ns None"
    using seg by (rule dlseg_frame)
  moreover have "m_pNodeHead g' = m_pNodeHead g" "m_pNodeRear g' = m_pNodeRear g"
    using assms(2) by (simp_all add: links_only_def)
  ultimately show ?thesis using rear by (simp add: seq_ok_def)
qed

lemma seq_ok_delete_node:
  assumes "seq_ok g ns" and "n \<notin> set ns"
  shows "seq_ok (g\<lparr>m_NodeList := X, node_store := (node_store g)(n := None)\<rparr>) ns"
proof -
  have seg: "dlseg (node_store g) prev nxt None (m_pNodeHead g) ns None"
    and rear: "m_pNodeRear g = (if ns = [] then None else Some (last ns))"
    using assms(1) by (simp_all add: seq_ok_def)
  have "\<forall>y\<in>set ns. \<exists>r r'. node_store g y = Some r \<and> ((node_store g)(n := None)) y = Some r' \<and>
          prev r' = prev r \<and> nxt r' = nxt r"
  proof
    fix y assume y: "y \<in> set ns"
    with seg obtain r where r: "node_store g y = Some r" using dlseg_live by fastforce
    moreover have "y \<noteq> n" using y assms(2) by auto
    ultimately show "\<exists>r r'. node_store g y = Some r \<and> ((node_store g)(n := None)) y = Some r' \<and>
          prev r' = prev r \<and> nxt r' = nxt r" by simp
  qed
  then have "dlseg ((node_store g)(n := None)) prev nxt None (m_pNodeHead g) ns None"
    using seg by (rule dlseg_frame)
  then show ?thesis using rear by (simp add: seq_ok_def)
qed

lemma erase_node_correct:
  assumes ch: "chains_ok g ins outs" and sq: "seq_ok g ns" and n: "n \<in> set ns"
  shows "\<exists>g'. erase_node n g = Some g' \<and> seq_ok g' (remove1 n ns) \<and>
           chains_ok g'
             (\<lambda>m. if m = n then [] else filter (\<lambda>b. b \<notin> set (ins n) \<union> set (outs n)) (ins m))
             (\<lambda>m. if m = n then [] else filter (\<lambda>b. b \<notin> set (ins n) \<union> set (outs n)) (outs m)) \<and>
           node_store g' n = None \<and> m_NodeList g' = m_NodeList g - {n} \<and>
           (\<forall>m. m \<noteq> n \<longrightarrow> (node_store g' m = None) = (node_store g m = None)) \<and>
           m_ArcList g' = fold remove1 (filter (\<lambda>b. b \<notin> set (ins n)) (outs n))
                            (fold remove1 (ins n) (m_ArcList g)) \<and>
           (\<forall>y. (arc_store g' y = None) =
                (arc_store g y = None \<or>
                 y \<in> set (ins n) \<union> set (outs n) \<and> y \<in> set (m_ArcList g))) \<and>
           m_ValueList g' = m_ValueList g \<and> value_store g' = value_store g"
proof -
  let ?X = "set (ins n) \<union> set (outs n)"
  from unlink_node_seq [OF sq n] obtain g1 where
    g1: "unlink_node n g = Some g1" and sq1: "seq_ok g1 (remove1 n ns)"
    and F1: "arc_store g1 = arc_store g" "m_ArcList g1 = m_ArcList g"
      "m_NodeList g1 = m_NodeList g" "m_ValueList g1 = m_ValueList g"
      "value_store g1 = value_store g"
    and K1: "\<forall>y. map_option (\<lambda>r. (first_in r, first_out r, m_Inputs r, m_Outputs r)) (node_store g1 y) =
                map_option (\<lambda>r. (first_in r, first_out r, m_Inputs r, m_Outputs r)) (node_store g y)"
    by blast
  have ch1: "chains_ok g1 ins outs" using ch F1(1) K1 by (rule chains_ok_frame)
  have lv1: "(node_store g1 m = None) = (node_store g m = None)" for m
    using K1 [rule_format, of m] by (cases "node_store g m"; cases "node_store g1 m") simp_all
  obtain nd1 where nd1: "node_store g1 n = Some nd1"
    using seq_ok_live [OF sq n] lv1 [of n] by auto
  let ?ins2 = "\<lambda>m. if m = n then [] else ins m"
  let ?outs2 = "\<lambda>m. filter (\<lambda>b. b \<notin> set (ins n)) (outs m)"
  from erase_fan_in_chains [OF ch1 nd1] obtain g2 where
    g2: "erase_fan_in (first_in nd1) g1 = Some g2" and ch2: "chains_ok g2 ?ins2 ?outs2"
    and lo2: "links_only g1 g2" and al2: "m_ArcList g2 = fold remove1 (ins n) (m_ArcList g1)"
    and av2: "\<forall>y. (arc_store g2 y = None) =
                (arc_store g1 y = None \<or> y \<in> set (ins n) \<and> y \<in> set (m_ArcList g1))"
    by blast
  obtain nd2 where nd2: "node_store g2 n = Some nd2"
    using links_only_node [OF lo2, of n] nd1 by auto
  let ?ins3 = "\<lambda>m. filter (\<lambda>b. b \<notin> set (?outs2 n)) (?ins2 m)"
  let ?outs3 = "\<lambda>m. if m = n then [] else ?outs2 m"
  from erase_fan_out_chains [OF ch2 nd2] obtain g3 where
    g3: "erase_fan_out (first_out nd2) g2 = Some g3" and ch3: "chains_ok g3 ?ins3 ?outs3"
    and lo3: "links_only g2 g3" and al3: "m_ArcList g3 = fold remove1 (?outs2 n) (m_ArcList g2)"
    and av3: "\<forall>y. (arc_store g3 y = None) =
                (arc_store g2 y = None \<or> y \<in> set (?outs2 n) \<and> y \<in> set (m_ArcList g2))"
    by blast
  let ?g = "g3\<lparr>m_NodeList := m_NodeList g3 - {n}, node_store := (node_store g3)(n := None)\<rparr>"
  have run: "erase_node n g = Some ?g"
    using g1 nd1 g2 nd2 g3 by (simp add: erase_node_def)
  have lo13: "links_only g1 g3" using lo2 lo3 by (rule links_only_trans)
  have dns: "distinct ns" using sq by (rule seq_ok_distinct)
  have "seq_ok g3 (remove1 n ns)" using sq1 lo13 by (rule seq_ok_links_only)
  moreover have "n \<notin> set (remove1 n ns)" using dns by simp
  ultimately have sqf: "seq_ok ?g (remove1 n ns)" by (rule seq_ok_delete_node)
  have "chains_ok ?g ?ins3 ?outs3"
    using ch3 by (rule chains_ok_delete_node) simp_all
  moreover have "\<forall>m. (if m = n then [] else filter (\<lambda>b. b \<notin> ?X) (ins m)) = ?ins3 m"
  proof
    fix m
    show "(if m = n then [] else filter (\<lambda>b. b \<notin> ?X) (ins m)) = ?ins3 m"
    proof (cases "m = n")
      case True
      then show ?thesis by simp
    next
      case False
      have "filter (\<lambda>b. b \<notin> ?X) (ins m) = filter (\<lambda>b. b \<notin> set (?outs2 n)) (ins m)"
      proof (rule filter_cong)
        show "ins m = ins m" by (rule refl)
      next
        fix b assume "b \<in> set (ins m)"
        from chains_ok_BI [OF ch this] obtain r where r: "arc_store g b = Some r" "target r = m"
          by blast
        have "b \<notin> set (ins n)"
        proof
          assume "b \<in> set (ins n)"
          from chains_ok_BI [OF ch this] r False show False by auto
        qed
        then show "(b \<notin> ?X) = (b \<notin> set (?outs2 n))" by simp
      qed
      then show ?thesis using False by simp
    qed
  qed
  moreover have "\<forall>m. (if m = n then [] else filter (\<lambda>b. b \<notin> ?X) (outs m)) = ?outs3 m"
  proof
    fix m
    show "(if m = n then [] else filter (\<lambda>b. b \<notin> ?X) (outs m)) = ?outs3 m"
    proof (cases "m = n")
      case True
      then show ?thesis by simp
    next
      case False
      have "filter (\<lambda>b. b \<notin> ?X) (outs m) = filter (\<lambda>b. b \<notin> set (ins n)) (outs m)"
      proof (rule filter_cong)
        show "outs m = outs m" by (rule refl)
      next
        fix b assume "b \<in> set (outs m)"
        from chains_ok_BO [OF ch this] obtain r where r: "arc_store g b = Some r" "source r = m"
          by blast
        have "b \<notin> set (outs n)"
        proof
          assume "b \<in> set (outs n)"
          from chains_ok_BO [OF ch this] r False show False by auto
        qed
        then show "(b \<notin> ?X) = (b \<notin> set (ins n))" by simp
      qed
      then show ?thesis using False by simp
    qed
  qed
  ultimately have chf: "chains_ok ?g
             (\<lambda>m. if m = n then [] else filter (\<lambda>b. b \<notin> ?X) (ins m))
             (\<lambda>m. if m = n then [] else filter (\<lambda>b. b \<notin> ?X) (outs m))"
    by (rule chains_ok_cong)
  have nn: "node_store ?g n = None" by simp
  have nl: "m_NodeList ?g = m_NodeList g - {n}"
    using lo13 F1(3) by (simp add: links_only_def)
  have lvn: "\<forall>m. m \<noteq> n \<longrightarrow> (node_store ?g m = None) = (node_store g m = None)"
    using links_only_node [OF lo13] lv1 by simp
  have al: "m_ArcList ?g = fold remove1 (filter (\<lambda>b. b \<notin> set (ins n)) (outs n))
                            (fold remove1 (ins n) (m_ArcList g))"
    using al3 al2 F1(2) by simp
  have av: "\<forall>y. (arc_store ?g y = None) =
                (arc_store g y = None \<or> y \<in> ?X \<and> y \<in> set (m_ArcList g))"
  proof
    fix y
    have a: "(arc_store ?g y = None) =
             ((arc_store g y = None \<or> y \<in> set (ins n) \<and> y \<in> set (m_ArcList g)) \<or>
              y \<in> set (?outs2 n) \<and> y \<in> set (fold remove1 (ins n) (m_ArcList g)))"
      using av3 av2 al2 F1(1,2) by simp
    show "(arc_store ?g y = None) =
                (arc_store g y = None \<or> y \<in> ?X \<and> y \<in> set (m_ArcList g))"
    proof (cases "y \<in> set (ins n)")
      case True
      then show ?thesis using a by auto
    next
      case False
      then have "(y \<in> set (fold remove1 (ins n) (m_ArcList g))) = (y \<in> set (m_ArcList g))"
        by (rule in_set_fold_remove1)
      then show ?thesis using a False by auto
    qed
  qed
  have vl: "m_ValueList ?g = m_ValueList g" "value_store ?g = value_store g"
    using lo13 F1(4,5) by (simp_all add: links_only_def)
  from run sqf chf nn nl lvn al av vl show ?thesis by (intro exI [of _ ?g] conjI)
qed

section \<open>Inserting and erasing nodes\<close>

text \<open>
  The walk backward from \<open>m_pNodeRear\<close> along \<open>prev\<close>.
\<close>

partial_function (option) traverse_back :: "graph \<Rightarrow> nat option \<Rightarrow> nat list option" where
  "traverse_back g p =
     (case p of
        None \<Rightarrow> Some []
      | Some n \<Rightarrow>
          (case node_store g n of
             None \<Rightarrow> None
           | Some nd \<Rightarrow> Option.bind (traverse_back g (prev nd)) (\<lambda>r. Some (n # r))))"

declare traverse_back.simps [code]

definition rear_to_head :: "graph \<Rightarrow> nat list option" where
  "rear_to_head g = traverse_back g (m_pNodeRear g)"

text \<open>
  Modelled from the spec: \<open>insertNode\<close> (the code is a template of the absent header
  \<open>ComputeGraph.h\<close>). Section 4.1: it appends a freshly constructed, unattached node to the
  sequence tail and has no effect on edges. The address of a freshly constructed node is not
  the address of a live one.
\<close>

definition new_node :: "nat option \<Rightarrow> operator" where
  "new_node p =
     \<lparr>prev = p, nxt = None, first_in = None, first_out = None, m_Inputs = [], m_Outputs = []\<rparr>"

definition insertNode :: "nat \<Rightarrow> graph \<Rightarrow> graph option" where
  "insertNode n g =
     (if node_store g n \<noteq> None then None
      else
        (case m_pNodeRear g of
           None \<Rightarrow>
             Some (g\<lparr>m_pNodeHead := Some n, m_pNodeRear := Some n,
                     m_NodeList := insert n (m_NodeList g),
                     node_store := (node_store g)(n \<mapsto> new_node None)\<rparr>)
         | Some r \<Rightarrow>
             (case node_store g r of
                None \<Rightarrow> None
              | Some rd \<Rightarrow>
                  Some (g\<lparr>m_pNodeRear := Some n,
                          m_NodeList := insert n (m_NodeList g),
                          node_store := (node_store g)(r \<mapsto> rd\<lparr>nxt := Some n\<rparr>,
                                                         n \<mapsto> new_node (Some r))\<rparr>))))"

text \<open>
  A structural edit of the node set. An erase is applied to a node of this graph, a member of
  \<open>m_NodeList\<close>; erasing anything else is outside the contract of erase(ComputeOperator).
\<close>

datatype edit = Insert nat | Erase nat

definition apply_edit :: "edit \<Rightarrow> graph \<Rightarrow> graph option" where
  "apply_edit e g =
     (case e of
        Insert n \<Rightarrow> insertNode n g
      | Erase n \<Rightarrow> if n \<in> m_NodeList g then erase_node n g else None)"

definition apply_edits :: "edit list \<Rightarrow> graph \<Rightarrow> graph option" where
  "apply_edits es g = fold (\<lambda>e r. Option.bind r (apply_edit e)) es (Some g)"

text \<open>
  The invariants of the container together: the sequence \<open>ns\<close> is well formed, it holds
  exactly the nodes of \<open>m_NodeList\<close>, and the edge chains are well formed.
\<close>

definition graph_inv :: "graph \<Rightarrow> nat list \<Rightarrow> bool" where
  "graph_inv g ns \<longleftrightarrow> seq_ok g ns \<and> m_NodeList g = set ns \<and> (\<exists>ins outs. chains_ok g ins outs)"

lemma dlseg_snoc_split:
  "dlseg st prv nx pr p (as @ [z]) e \<Longrightarrow>
     (\<exists>r. st z = Some r \<and> prv r = (if as = [] then pr else Some (last as)) \<and> nx r = e) \<and>
     dlseg st prv nx pr p as (Some z)"
proof (induction as arbitrary: pr p)
  case Nil
  then show ?case by (auto split: option.splits)
next
  case (Cons a as)
  from Cons.prems obtain ra where ra: "p = Some a" "st a = Some ra" "prv ra = pr"
    "dlseg st prv nx (Some a) (nx ra) (as @ [z]) e"
    by (auto split: option.splits)
  from Cons.IH [OF ra(4)] ra(1,2,3) show ?case by auto
qed

lemma traverse_back_dlseg:
  "dlseg (node_store g) prev nxt None p ns e \<Longrightarrow>
     traverse_back g (if ns = [] then None else Some (last ns)) = Some (rev ns)"
proof (induction ns arbitrary: e rule: rev_induct)
  case Nil
  show ?case by (subst traverse_back.simps) simp
next
  case (snoc z as)
  from dlseg_snoc_split [OF snoc.prems] obtain r where
    r: "node_store g z = Some r" "prev r = (if as = [] then None else Some (last as))"
    and seg: "dlseg (node_store g) prev nxt None p as (Some z)"
    by blast
  from snoc.IH [OF seg] r show ?case
    by (subst traverse_back.simps) simp
qed

lemma dlseg_snoc:
  assumes "dlseg st prv nx pr p ns None" and "n \<notin> set ns" and "ns \<noteq> []"
    and "st (last ns) = Some rd"
    and "st' = st(last ns \<mapsto> rd', n \<mapsto> nd')"
    and "prv rd' = prv rd" and "nx rd' = Some n" and "prv nd' = Some (last ns)" and "nx nd' = None"
  shows "dlseg st' prv nx pr p (ns @ [n]) None"
  using assms(1,2,3,4,5,8)
proof (induction ns arbitrary: pr p)
  case Nil
  then show ?case by simp
next
  case (Cons a as)
  from Cons.prems(1) obtain ra where ra: "p = Some a" "st a = Some ra" "prv ra = pr"
    "dlseg st prv nx (Some a) (nx ra) as None"
    by (auto split: option.splits)
  have an: "a \<noteq> n" using Cons.prems(2) by simp
  show ?case
  proof (cases "as = []")
    case True
    then have "ra = rd" using Cons.prems(4) ra(2) by simp
    moreover have "nx ra = None" using ra(4) True by simp
    ultimately show ?thesis
      using True ra an Cons.prems(5,6) assms(6,7,9) by simp
  next
    case False
    have d: "distinct (a # as)" using Cons.prems(1) by (rule dlseg_distinct)
    then have al: "a \<noteq> last as" using False by auto
    have "dlseg st' prv nx (Some a) (nx ra) (as @ [n]) None"
      using ra(4) Cons.prems(2,4,5,6) False by (intro Cons.IH) simp_all
    then show ?thesis using ra an al Cons.prems(5) False by simp
  qed
qed

lemma insertNode_inv:
  assumes inv: "graph_inv g ns" and fresh: "node_store g n = None"
  shows "\<exists>g'. insertNode n g = Some g' \<and> graph_inv g' (ns @ [n])"
proof -
  have sq: "seq_ok g ns" and nl: "m_NodeList g = set ns" using inv by (simp_all add: graph_inv_def)
  from inv obtain ins outs where ch: "chains_ok g ins outs" by (auto simp: graph_inv_def)
  have seg: "dlseg (node_store g) prev nxt None (m_pNodeHead g) ns None"
    and rear: "m_pNodeRear g = (if ns = [] then None else Some (last ns))"
    using sq by (simp_all add: seq_ok_def)
  have nns: "n \<notin> set ns"
  proof
    assume "n \<in> set ns"
    from seq_ok_live [OF sq this] fresh show False by simp
  qed
  have I: "\<forall>m. in_seg g m (ins m)" and O: "\<forall>m. out_seg g m (outs m)"
    using ch by (simp_all add: chains_ok_def)
  have "in_seg g n (ins n)" "out_seg g n (outs n)" using I O by blast+
  then have e: "ins n = []" "outs n = []" using fresh by (simp_all add: in_seg_def out_seg_def)
  show ?thesis
  proof (cases "ns = []")
    case True
    let ?g = "g\<lparr>m_pNodeHead := Some n, m_pNodeRear := Some n,
                     m_NodeList := insert n (m_NodeList g),
                     node_store := (node_store g)(n \<mapsto> new_node None)\<rparr>"
    have run: "insertNode n g = Some ?g" using fresh rear True by (simp add: insertNode_def)
    have "seq_ok ?g (ns @ [n])" using True by (simp add: seq_ok_def new_node_def)
    moreover have "m_NodeList ?g = set (ns @ [n])" using nl by simp
    moreover have "chains_ok ?g ins outs"
    proof (rule chains_okI)
      show "\<forall>m. in_seg ?g m (ins m)"
      proof
        fix m
        have "in_seg g m (ins m)" using I by blast
        then show "in_seg ?g m (ins m)"
          using e by (cases "m = n") (auto simp: in_seg_def new_node_def split: option.splits)
      qed
      show "\<forall>m. out_seg ?g m (outs m)"
      proof
        fix m
        have "out_seg g m (outs m)" using O by blast
        then show "out_seg ?g m (outs m)"
          using e by (cases "m = n") (auto simp: out_seg_def new_node_def split: option.splits)
      qed
      show "\<forall>n. \<forall>a\<in>set (outs n). \<exists>x. arc_store ?g a = Some x \<and> source x = n \<and> a \<in> set (ins (target x))"
        using chains_okD(3) [OF ch] by simp
      show "\<forall>n. \<forall>a\<in>set (ins n). \<exists>x. arc_store ?g a = Some x \<and> target x = n \<and> a \<in> set (outs (source x))"
        using chains_okD(4) [OF ch] by simp
    qed
    ultimately have "graph_inv ?g (ns @ [n])" unfolding graph_inv_def by blast
    with run show ?thesis by blast
  next
    case False
    let ?r = "last ns"
    have rr: "m_pNodeRear g = Some ?r" using rear False by simp
    have "?r \<in> set ns" using False by simp
    then obtain rd where rd: "node_store g ?r = Some rd" using seq_ok_live [OF sq] by blast
    have rn: "?r \<noteq> n" using \<open>?r \<in> set ns\<close> nns by auto
    let ?st = "(node_store g)(?r \<mapsto> rd\<lparr>nxt := Some n\<rparr>, n \<mapsto> new_node (Some ?r))"
    let ?g = "g\<lparr>m_pNodeRear := Some n, m_NodeList := insert n (m_NodeList g), node_store := ?st\<rparr>"
    have run: "insertNode n g = Some ?g" using fresh rr rd by (simp add: insertNode_def)
    have "dlseg ?st prev nxt None (m_pNodeHead g) (ns @ [n]) None"
      by (rule dlseg_snoc [OF seg nns False rd, where rd' = "rd\<lparr>nxt := Some n\<rparr>"
            and nd' = "new_node (Some ?r)"]) (simp_all add: new_node_def)
    then have "seq_ok ?g (ns @ [n])" by (simp add: seq_ok_def)
    moreover have "m_NodeList ?g = set (ns @ [n])" using nl by simp
    moreover have "chains_ok ?g ins outs"
    proof (rule chains_okI)
      show "\<forall>m. in_seg ?g m (ins m)"
      proof
        fix m
        have "in_seg g m (ins m)" using I by blast
        then show "in_seg ?g m (ins m)"
          using e rd rn by (cases "m = n"; cases "m = ?r")
            (auto simp: in_seg_def new_node_def split: option.splits)
      qed
      show "\<forall>m. out_seg ?g m (outs m)"
      proof
        fix m
        have "out_seg g m (outs m)" using O by blast
        then show "out_seg ?g m (outs m)"
          using e rd rn by (cases "m = n"; cases "m = ?r")
            (auto simp: out_seg_def new_node_def split: option.splits)
      qed
      show "\<forall>n. \<forall>a\<in>set (outs n). \<exists>x. arc_store ?g a = Some x \<and> source x = n \<and> a \<in> set (ins (target x))"
        using chains_okD(3) [OF ch] by simp
      show "\<forall>n. \<forall>a\<in>set (ins n). \<exists>x. arc_store ?g a = Some x \<and> target x = n \<and> a \<in> set (outs (source x))"
        using chains_okD(4) [OF ch] by simp
    qed
    ultimately have "graph_inv ?g (ns @ [n])" unfolding graph_inv_def by blast
    with run show ?thesis by blast
  qed
qed

lemma erase_node_inv:
  assumes inv: "graph_inv g ns" and n: "n \<in> m_NodeList g"
  shows "\<exists>g'. erase_node n g = Some g' \<and> graph_inv g' (remove1 n ns)"
proof -
  have sq: "seq_ok g ns" and nl: "m_NodeList g = set ns" using inv by (simp_all add: graph_inv_def)
  from inv obtain ins outs where ch: "chains_ok g ins outs" by (auto simp: graph_inv_def)
  have nn: "n \<in> set ns" using n nl by simp
  from erase_node_correct [OF ch sq nn] obtain g' where
    run: "erase_node n g = Some g'" and sq': "seq_ok g' (remove1 n ns)"
    and ch': "chains_ok g'
             (\<lambda>m. if m = n then [] else filter (\<lambda>b. b \<notin> set (ins n) \<union> set (outs n)) (ins m))
             (\<lambda>m. if m = n then [] else filter (\<lambda>b. b \<notin> set (ins n) \<union> set (outs n)) (outs m))"
    and nl': "m_NodeList g' = m_NodeList g - {n}"
    by blast
  have "distinct ns" using sq by (rule seq_ok_distinct)
  then have "set (remove1 n ns) = set ns - {n}" by simp
  with nl nl' have "m_NodeList g' = set (remove1 n ns)" by simp
  with sq' ch' have "graph_inv g' (remove1 n ns)" unfolding graph_inv_def by blast
  with run show ?thesis by blast
qed

lemma apply_edits_inv:
  "graph_inv g ns \<Longrightarrow> apply_edits es g = Some g' \<Longrightarrow> \<exists>ns'. graph_inv g' ns'"
proof (induction es arbitrary: g ns)
  case Nil
  then show ?case by (auto simp: apply_edits_def)
next
  case (Cons e es)
  have none: "fold (\<lambda>e r. Option.bind r (apply_edit e)) xs None = None" for xs
    by (induction xs) simp_all
  from Cons.prems(2) obtain g1 where g1: "apply_edit e g = Some g1"
    using none by (cases "apply_edit e g") (auto simp: apply_edits_def)
  with Cons.prems(2) have rest: "apply_edits es g1 = Some g'" by (simp add: apply_edits_def)
  have "\<exists>ns1. graph_inv g1 ns1"
  proof (cases e)
    case (Insert n)
    with g1 have i: "insertNode n g = Some g1" by (simp add: apply_edit_def)
    then have "node_store g n = None" by (auto simp: insertNode_def split: if_splits)
    from insertNode_inv [OF Cons.prems(1) this] i show ?thesis by auto
  next
    case (Erase n)
    with g1 have "n \<in> m_NodeList g" "erase_node n g = Some g1"
      by (auto simp: apply_edit_def split: if_splits)
    with erase_node_inv [OF Cons.prems(1), of n] show ?thesis by auto
  qed
  then obtain ns1 where "graph_inv g1 ns1" by blast
  from Cons.IH [OF this rest] show ?case .
qed

lemma seq_ok_local:
  assumes sq: "seq_ok g ns" and n: "n \<in> set ns"
  shows "\<exists>nd. node_store g n = Some nd \<and>
           (prev nd = None \<longleftrightarrow> m_pNodeHead g = Some n) \<and>
           (nxt nd = None \<longleftrightarrow> m_pNodeRear g = Some n) \<and>
           (\<forall>p. prev nd = Some p \<longrightarrow> p \<in> set ns \<and> (\<exists>pd. node_store g p = Some pd \<and> nxt pd = Some n)) \<and>
           (\<forall>q. nxt nd = Some q \<longrightarrow> q \<in> set ns \<and> (\<exists>qd. node_store g q = Some qd \<and> prev qd = Some n))"
proof -
  have seg: "dlseg (node_store g) prev nxt None (m_pNodeHead g) ns None"
    and rear: "m_pNodeRear g = (if ns = [] then None else Some (last ns))"
    using sq by (simp_all add: seq_ok_def)
  from n obtain xs ys where sp: "ns = xs @ n # ys" by (auto simp: in_set_conv_decomp)
  have seg': "dlseg (node_store g) prev nxt None (m_pNodeHead g) (xs @ n # ys) None"
    using seg sp by simp
  have dist: "distinct (xs @ n # ys)" using seg' by (rule dlseg_distinct)
  obtain nd where nd: "node_store g n = Some nd" using seq_ok_live [OF sq n] by auto
  have px: "prev nd = (if xs = [] then None else Some (last xs))"
    using seg' nd by (rule dlseg_prev)
  have nx: "nxt nd = (if ys = [] then None else Some (hd ys))"
    using seg' nd by (rule dlseg_next)
  have hd: "m_pNodeHead g = Some (hd (xs @ n # ys))"
    using seg' by (rule dlseg_head) simp
  have 1: "prev nd = None \<longleftrightarrow> m_pNodeHead g = Some n"
  proof (cases xs)
    case Nil
    then show ?thesis using px hd by simp
  next
    case (Cons a as)
    then have "a \<noteq> n" using dist by auto
    then show ?thesis using px hd Cons by simp
  qed
  have 2: "nxt nd = None \<longleftrightarrow> m_pNodeRear g = Some n"
  proof (cases "ys = []")
    case True
    then show ?thesis using nx rear sp by simp
  next
    case False
    then have "last ys \<in> set ys" by simp
    then have "last ys \<noteq> n" using dist by auto
    then show ?thesis using nx rear sp False by simp
  qed
  have 3: "p \<in> set ns \<and> (\<exists>pd. node_store g p = Some pd \<and> nxt pd = Some n)" if "prev nd = Some p" for p
  proof -
    from that px have ne: "xs \<noteq> []" and p: "p = last xs" by (auto split: if_splits)
    then have xs: "xs = butlast xs @ [p]" by simp
    then have sp': "xs @ n # ys = butlast xs @ p # (n # ys)" by (metis append.assoc append_Cons append_Nil)
    have pin: "p \<in> set ns" using sp p ne by simp
    then obtain pd where pd: "node_store g p = Some pd" using seq_ok_live [OF sq] by blast
    have "dlseg (node_store g) prev nxt None (m_pNodeHead g) (butlast xs @ p # (n # ys)) None"
      using seg' sp' by simp
    from dlseg_next [OF this pd] have "nxt pd = Some n" by simp
    with pin pd show ?thesis by simp
  qed
  have 4: "q \<in> set ns \<and> (\<exists>qd. node_store g q = Some qd \<and> prev qd = Some n)" if "nxt nd = Some q" for q
  proof -
    from that nx have ne: "ys \<noteq> []" and q: "q = hd ys" by (auto split: if_splits)
    then have ys: "ys = q # tl ys" by simp
    then have sp': "xs @ n # ys = (xs @ [n]) @ q # tl ys" by simp
    have qin: "q \<in> set ns" using sp q ne by simp
    then obtain qd where qd: "node_store g q = Some qd" using seq_ok_live [OF sq] by blast
    have "dlseg (node_store g) prev nxt None (m_pNodeHead g) ((xs @ [n]) @ q # tl ys) None"
      using seg' sp' by simp
    from dlseg_prev [OF this qd] have "prev qd = Some n" by simp
    with qin qd show ?thesis by simp
  qed
  have p3: "\<forall>p. prev nd = Some p \<longrightarrow> p \<in> set ns \<and> (\<exists>pd. node_store g p = Some pd \<and> nxt pd = Some n)"
    using 3 by blast
  have p4: "\<forall>q. nxt nd = Some q \<longrightarrow> q \<in> set ns \<and> (\<exists>qd. node_store g q = Some qd \<and> prev qd = Some n)"
    using 4 by blast
  from nd 1 2 p3 p4 show ?thesis by (intro exI [of _ nd] conjI)
qed

lemma seq_ok_traversals:
  assumes "seq_ok g ns"
  shows "begin_to_end g = Some ns" and "rear_to_head g = Some (rev ns)"
proof -
  have seg: "dlseg (node_store g) prev nxt None (m_pNodeHead g) ns None"
    and rear: "m_pNodeRear g = (if ns = [] then None else Some (last ns))"
    using assms by (simp_all add: seq_ok_def)
  show "begin_to_end g = Some ns"
    unfolding begin_to_end_def using seg by (rule traverse_dlseg)
  show "rear_to_head g = Some (rev ns)"
    unfolding rear_to_head_def rear using seg by (rule traverse_back_dlseg)
qed

text \<open>
  The nodes \<open>A\<close>, \<open>B\<close>, \<open>C\<close> at the addresses \<open>1\<close>, \<open>2\<close>, \<open>3\<close>, connected first by the
  arc \<open>5\<close> from \<open>B\<close> to \<open>C\<close> and then by the arc \<open>6\<close> from \<open>A\<close> to \<open>C\<close>, which was
  spliced at the head of the fan-in chain of \<open>C\<close>. The arc list is a parameter.
\<close>

definition connected_abc :: "nat list \<Rightarrow> graph" where
  "connected_abc arc_list =
     \<lparr>m_pNodeHead = Some 1, m_pNodeRear = Some 3, m_NodeList = {1, 2, 3}, m_ArcList = arc_list,
      m_ValueList = map_of [(''a'', 10), (''b'', 11)],
      node_store = map_of
        [(1, \<lparr>prev = None, nxt = Some 2, first_in = None, first_out = Some 6,
              m_Inputs = [], m_Outputs = [10]\<rparr>),
         (2, \<lparr>prev = Some 1, nxt = Some 3, first_in = None, first_out = Some 5,
              m_Inputs = [], m_Outputs = [11]\<rparr>),
         (3, \<lparr>prev = Some 2, nxt = None, first_in = Some 6, first_out = None,
              m_Inputs = [11, 10], m_Outputs = []\<rparr>)],
      arc_store = map_of
        [(5, \<lparr>prev_in = Some 6, next_in = None, prev_out = None, next_out = None,
              source = 2, target = 3\<rparr>),
         (6, \<lparr>prev_in = None, next_in = Some 5, prev_out = None, next_out = None,
              source = 1, target = 3\<rparr>)],
      value_store = map_of [(10, \<lparr>getName = ''a'', getDefine = Some 1, getUses = [Use 3]\<rparr>),
                            (11, \<lparr>getName = ''b'', getDefine = Some 2, getUses = [Use 3]\<rparr>)]\<rparr>"

definition abc_ins :: "nat \<Rightarrow> nat list" where
  "abc_ins n = (if n = 3 then [6, 5] else [])"

definition abc_outs :: "nat \<Rightarrow> nat list" where
  "abc_outs n = (if n = 1 then [6] else if n = 2 then [5] else [])"

text \<open>
  The graph as the constructor leaves it, in an empty store.
\<close>

definition empty_graph :: graph where
  "empty_graph =
     \<lparr>m_pNodeHead = None, m_pNodeRear = None, m_NodeList = {}, m_ArcList = [],
      m_ValueList = Map.empty, node_store = Map.empty, arc_store = Map.empty,
      value_store = Map.empty\<rparr>"

lemma connected_abc_chains: "chains_ok (connected_abc L) abc_ins abc_outs"
  by (rule chains_okI)
    (auto simp: in_seg_def out_seg_def connected_abc_def abc_ins_def abc_outs_def)

lemma connected_abc_seq: "seq_ok (connected_abc L) [1, 2, 3]"
  by (simp add: seq_ok_def connected_abc_def)

lemma empty_graph_inv: "graph_inv empty_graph []"
proof -
  have "chains_ok empty_graph (\<lambda>n. []) (\<lambda>n. [])"
    by (rule chains_okI) (simp_all add: in_seg_def out_seg_def empty_graph_def)
  then show ?thesis
    unfolding graph_inv_def by (auto simp: seq_ok_def empty_graph_def)
qed

text \<open>
  The graph that erase(ComputeOperator) returns for the node \<open>B\<close> of \<open>connected_abc\<close>. The
  node \<open>C\<close> keeps its two input slots; the value \<open>11\<close> that \<open>B\<close> defined has no producer
  left in the sequence.
\<close>

definition abc_erased_b :: graph where
  "abc_erased_b = the (erase_node 2 (connected_abc [5, 6]))"

lemma abc_erased_b_run: "erase_node 2 (connected_abc [5, 6]) = Some abc_erased_b"
proof -
  have "2 \<in> set [1, 2, 3 :: nat]" by simp
  from erase_node_correct [OF connected_abc_chains connected_abc_seq this]
  obtain g' where "erase_node 2 (connected_abc [5, 6]) = Some g'" by blast
  then show ?thesis by (simp add: abc_erased_b_def)
qed



section \<open>The frame of topologicalSort\<close>

lemma relink_node_frame:
  assumes "relink_node nodes i g = Some g'"
  shows "m_pNodeHead g' = m_pNodeHead g \<and> m_pNodeRear g' = m_pNodeRear g \<and>
         m_NodeList g' = m_NodeList g \<and> m_ArcList g' = m_ArcList g \<and>
         m_ValueList g' = m_ValueList g \<and> arc_store g' = arc_store g \<and>
         value_store g' = value_store g \<and>
         (\<forall>n. map_option (\<lambda>nd. nd\<lparr>prev := None, nxt := None\<rparr>) (node_store g' n) =
              map_option (\<lambda>nd. nd\<lparr>prev := None, nxt := None\<rparr>) (node_store g n))"
  using assms by (auto simp: relink_node_def split: option.splits)

lemma relink_fold_frame:
  assumes "fold (\<lambda>i r. Option.bind r (relink_node nodes i)) is (Some g0) = Some g'"
    and "m_pNodeHead g0 = m_pNodeHead g \<and> m_pNodeRear g0 = m_pNodeRear g \<and>
         m_NodeList g0 = m_NodeList g \<and> m_ArcList g0 = m_ArcList g \<and>
         m_ValueList g0 = m_ValueList g \<and> arc_store g0 = arc_store g \<and>
         value_store g0 = value_store g \<and>
         (\<forall>n. map_option (\<lambda>nd. nd\<lparr>prev := None, nxt := None\<rparr>) (node_store g0 n) =
              map_option (\<lambda>nd. nd\<lparr>prev := None, nxt := None\<rparr>) (node_store g n))"
  shows "m_pNodeHead g' = m_pNodeHead g \<and> m_pNodeRear g' = m_pNodeRear g \<and>
         m_NodeList g' = m_NodeList g \<and> m_ArcList g' = m_ArcList g \<and>
         m_ValueList g' = m_ValueList g \<and> arc_store g' = arc_store g \<and>
         value_store g' = value_store g \<and>
         (\<forall>n. map_option (\<lambda>nd. nd\<lparr>prev := None, nxt := None\<rparr>) (node_store g' n) =
              map_option (\<lambda>nd. nd\<lparr>prev := None, nxt := None\<rparr>) (node_store g n))"
  using assms
proof (induction "is" arbitrary: g0)
  case Nil
  then show ?case by simp
next
  case (Cons i "is")
  have none: "fold (\<lambda>i r. Option.bind r (relink_node nodes i)) js None = None" for js
    by (induction js) simp_all
  obtain g1 where g1: "relink_node nodes i g0 = Some g1"
    using Cons.prems(1) none by (cases "relink_node nodes i g0") auto
  have "fold (\<lambda>i r. Option.bind r (relink_node nodes i)) is (Some g1) = Some g'"
    using Cons.prems(1) g1 by simp
  moreover have "m_pNodeHead g1 = m_pNodeHead g \<and> m_pNodeRear g1 = m_pNodeRear g \<and>
         m_NodeList g1 = m_NodeList g \<and> m_ArcList g1 = m_ArcList g \<and>
         m_ValueList g1 = m_ValueList g \<and> arc_store g1 = arc_store g \<and>
         value_store g1 = value_store g \<and>
         (\<forall>n. map_option (\<lambda>nd. nd\<lparr>prev := None, nxt := None\<rparr>) (node_store g1 n) =
              map_option (\<lambda>nd. nd\<lparr>prev := None, nxt := None\<rparr>) (node_store g n))"
    using relink_node_frame [OF g1] Cons.prems(2) by simp
  ultimately show ?case by (rule Cons.IH)
qed

text \<open>
  C9. topologicalSort assigns neither \<open>m_pNodeHead\<close> nor \<open>m_pNodeRear\<close>: whenever it returns,
  both anchors, the node list, the arc list, the value table, every arc and every value are
  as before, the same operators are live, and an operator differs from its old self at most
  in \<open>prev\<close> and \<open>next\<close>.
\<close>

theorem topologicalSort_frame:
  assumes "topologicalSort g = Some g'"
  shows "m_pNodeHead g' = m_pNodeHead g \<and> m_pNodeRear g' = m_pNodeRear g \<and>
         m_NodeList g' = m_NodeList g \<and> m_ArcList g' = m_ArcList g \<and>
         m_ValueList g' = m_ValueList g \<and> arc_store g' = arc_store g \<and>
         value_store g' = value_store g \<and>
         (\<forall>n. map_option (\<lambda>nd. nd\<lparr>prev := None, nxt := None\<rparr>) (node_store g' n) =
              map_option (\<lambda>nd. nd\<lparr>prev := None, nxt := None\<rparr>) (node_store g n))"
proof -
  from assms obtain d nodes where "relink nodes g = Some g'"
    by (auto simp: topologicalSort_def split: Option.bind_splits)
  then show ?thesis
    unfolding relink_def by (rule relink_fold_frame) simp
qed

theorem topologicalSort_frame_witness:
  "\<exists>g'. topologicalSort consumer_first = Some g' \<and>
        m_pNodeHead g' = Some 1 \<and> m_pNodeRear g' = Some 2"
proof -
  have "topologicalSort consumer_first \<noteq> None" by code_simp
  then obtain g' where g': "topologicalSort consumer_first = Some g'" by auto
  from topologicalSort_frame [OF g'] g' show ?thesis
    by (simp add: consumer_first_def)
qed

text \<open>
  C2. The graph \<open>consumer_first\<close> has the sequence \<open>[1, 2]\<close>, linked slots and the single
  edge \<open>2 \<rightarrow> 1\<close>, so it is acyclic (lemmas \<open>cf_seq\<close>, \<open>cf_linked\<close>, \<open>cf_edges\<close> and
  \<open>cf_acyclic\<close>). The output sequence of the scheduler is \<open>[2, 1]\<close>, but the traversal from
  \<open>begin()\<close> to \<open>end()\<close> after topologicalSort visits \<open>[1]\<close> only: \<open>m_pNodeHead\<close> still
  points to operator \<open>1\<close>, whose \<open>next\<close> is now unset.
\<close>

theorem topologicalSort_traversal_consumer_first:
  "map_option snd (schedule consumer_first) = Some [2, 1] \<and>
   Option.bind (topologicalSort consumer_first) begin_to_end = Some [1] \<and>
   map_option m_pNodeHead (topologicalSort consumer_first) = Some (Some 1)"
  by code_simp

section \<open>Erasing a value that is still referenced\<close>

text \<open>
  C8, as stated, fails: compiled with \<open>NDEBUG\<close>, erase(Value) on the value \<open>11\<close> of
  \<open>consumer_first\<close>, which has a definer and a use, returns with the value removed from the
  table and deleted.
\<close>

theorem erase_value_ndebug_counterexample:
  "value_store consumer_first 11 = Some \<lparr>getName = ''b'', getDefine = Some 2, getUses = [Use 1]\<rparr> \<and>
   erase_value True consumer_first 11 =
     Returns (consumer_first\<lparr>m_ValueList := (m_ValueList consumer_first)(''b'' := None),
                             value_store := (value_store consumer_first)(11 := None)\<rparr>)"
  by (simp add: erase_value_def consumer_first_def)

text \<open>
  C8, amended. The two conditions are checked by \<open>assert\<close> only. With assertions enabled,
  erase(Value) returns exactly when the value has no definer and no uses, and then the name
  is gone from the table and the value is deleted; with a definer or a use the call stops at
  the failed assertion. Compiled with \<open>NDEBUG\<close> the call always removes and deletes the value.
\<close>

theorem erase_value_checked_by_assert:
  assumes "value_store g v = Some pVal"
  shows "((\<exists>g'. erase_value False g v = Returns g') \<longleftrightarrow> getDefine pVal = None \<and> getUses pVal = []) \<and>
         (getDefine pVal \<noteq> None \<or> getUses pVal \<noteq> [] \<longrightarrow>
            (\<exists>msg. erase_value False g v = AssertionFailed msg)) \<and>
         (\<forall>ndebug g'. erase_value ndebug g v = Returns g' \<longrightarrow>
            m_ValueList g' (getName pVal) = None \<and> value_store g' v = None \<and>
            node_store g' = node_store g \<and> arc_store g' = arc_store g) \<and>
         (\<exists>g'. erase_value True g v = Returns g')"
  using assms by (auto simp: erase_value_def)

theorem erase_value_checked_by_assert_witness:
  "value_store consumer_first 11 = Some \<lparr>getName = ''b'', getDefine = Some 2, getUses = [Use 1]\<rparr> \<and>
   (\<exists>msg. erase_value False consumer_first 11 = AssertionFailed msg) \<and>
   (\<exists>g'. erase_value True consumer_first 11 = Returns g')"
proof -
  have h: "value_store consumer_first 11 =
             Some \<lparr>getName = ''b'', getDefine = Some 2, getUses = [Use 1]\<rparr>"
    by (simp add: consumer_first_def)
  from erase_value_checked_by_assert [OF h] h show ?thesis by simp
qed


section \<open>The output sequence of the scheduler\<close>




text \<open>
  C3. The scheduler is stable: when the operator at position \<open>j\<close> of the output was ready
  (every producer of its inputs already scheduled) at an earlier step \<open>i\<close>, then the operator
  taken at step \<open>i\<close> has the smaller original position. On the scenario \<open>A, B, C\<close> with the
  edges \<open>B \<rightarrow> C\<close> and \<open>A \<rightarrow> C\<close> the output is \<open>[A, B, C]\<close>, although \<open>A\<close> has the
  largest address.
\<close>

theorem schedule_stable:
  "(is_seq g (m_pNodeHead g) ns \<and> slots_linked g ns \<longrightarrow>
      (\<exists>d out. schedule g = Some (d, out) \<and>
         (\<forall>i j. i < j \<and> j < length out \<and> ready g ns (take i out) (out ! j) \<longrightarrow>
            index_of ns (out ! i) < index_of ns (out ! j)))) \<and>
   is_seq fan_in_abc (m_pNodeHead fan_in_abc) [30, 20, 10] \<and>
   edges fan_in_abc [30, 20, 10] = {(20, 10), (30, 10)} \<and>
   map_option snd (schedule fan_in_abc) = Some [30, 20, 10]"
proof (intro conjI impI)
  assume a: "is_seq g (m_pNodeHead g) ns \<and> slots_linked g ns"
  then have seq: "is_seq g (m_pNodeHead g) ns" and sl: "slots_linked g ns" by simp_all
  from schedule_invariant [OF seq sl] obtain oi d out where
    s: "schedule g = Some (d, out)" and inv: "kahn_inv g ns oi d [] out"
    and oi: "\<forall>m\<in>set ns. at oi m = int (index_of ns m)"
    by blast
  have dout: "distinct out" and sub: "set out \<subseteq> set ns"
    and I7: "\<forall>as x bs. out = as @ x # bs \<longrightarrow>
        (\<forall>m\<in>set ns. m \<notin> set as \<and> m \<noteq> x \<and> ready g ns as m \<longrightarrow> at oi x < at oi m)"
    using inv by (simp_all add: kahn_inv_def)
  have "index_of ns (out ! i) < index_of ns (out ! j)"
    if h: "i < j \<and> j < length out \<and> ready g ns (take i out) (out ! j)" for i j
  proof -
    from h have i: "i < length out" and j: "j < length out" and ij: "i < j" by simp_all
    have sp: "out = take i out @ out ! i # drop (Suc i) out"
      using i by (rule id_take_nth_drop)
    have mj: "out ! j \<in> set ns" and mi: "out ! i \<in> set ns" using sub i j by auto
    have ne: "out ! j \<noteq> out ! i"
      using dout i j ij by (simp add: nth_eq_iff_index_eq)
    have "out ! j \<notin> set (take i out)"
    proof
      assume "out ! j \<in> set (take i out)"
      then obtain k where "k < i" "out ! k = out ! j"
        using i by (auto simp: in_set_conv_nth)
      then show False using dout i j ij by (simp add: nth_eq_iff_index_eq)
    qed
    with I7 sp mj ne h have "at oi (out ! i) < at oi (out ! j)" by blast
    then show ?thesis using oi mi mj by simp
  qed
  with s show "\<exists>d out. schedule g = Some (d, out) \<and>
         (\<forall>i j. i < j \<and> j < length out \<and> ready g ns (take i out) (out ! j) \<longrightarrow>
            index_of ns (out ! i) < index_of ns (out ! j))"
    by blast
next
  show "is_seq fan_in_abc (m_pNodeHead fan_in_abc) [30, 20, 10]" by (rule abc_seq)
next
  show "edges fan_in_abc [30, 20, 10] = {(20, 10), (30, 10)}"
    by (auto simp: edges_def users_def uses_of_outputs_def fan_in_abc_def mk_node_def)
next
  show "map_option snd (schedule fan_in_abc) = Some [30, 20, 10]" by code_simp
qed


theorem schedule_stable_witness:
  "is_seq fan_in_abc (m_pNodeHead fan_in_abc) [30, 20, 10] \<and>
   slots_linked fan_in_abc [30, 20, 10] \<and>
   (\<exists>d out. schedule fan_in_abc = Some (d, out) \<and> (0::nat) < 1 \<and> 1 < length out \<and>
      ready fan_in_abc [30, 20, 10] (take 0 out) (out ! 1) \<and>
      index_of [30, 20, 10] (out ! 0) < index_of [30, 20, 10] (out ! 1))"
proof -
  have hyp: "is_seq fan_in_abc (m_pNodeHead fan_in_abc) [30, 20, 10] \<and>
             slots_linked fan_in_abc [30, 20, 10]"
    using abc_seq abc_linked by (rule conjI)
  have "\<exists>d out. schedule fan_in_abc = Some (d, out) \<and>
          (\<forall>i j. i < j \<and> j < length out \<and> ready fan_in_abc [30, 20, 10] (take i out) (out ! j) \<longrightarrow>
             index_of [30, 20, 10] (out ! i) < index_of [30, 20, 10] (out ! j))"
    using schedule_stable [of fan_in_abc "[30, 20, 10]", THEN conjunct1] hyp by (rule mp)
  then obtain d out where s: "schedule fan_in_abc = Some (d, out)"
    and st: "\<And>i j. i < j \<and> j < length out \<and> ready fan_in_abc [30, 20, 10] (take i out) (out ! j) \<Longrightarrow>
               index_of [30, 20, 10] (out ! i) < index_of [30, 20, 10] (out ! j)"
    by (elim exE conjE) simp
  have "map_option snd (schedule fan_in_abc) = Some [30, 20, 10]" by code_simp
  with s have out: "out = [30, 20, 10]" by simp
  have r: "ready fan_in_abc [30, 20, 10] (take 0 out) (out ! 1)"
    unfolding out
    by (simp add: ready_def users_def uses_of_outputs_def fan_in_abc_def mk_node_def)
  have l: "(0::nat) < 1" "1 < length out" unfolding out by simp_all
  have "index_of [30, 20, 10] (out ! 0) < index_of [30, 20, 10] (out ! 1)"
    by (rule st) (intro conjI l r)
  with s l r hyp show ?thesis by (intro conjI exI) simp_all
qed

text \<open>
  C4, as stated, fails. In \<open>abc_erased_b\<close> the node \<open>3\<close> has two input slots and one
  incoming edge (from node \<open>1\<close>; its fan-in chain holds the arc \<open>6\<close> only), and step 1
  records the in-degree \<open>2\<close> for it.
\<close>

theorem recorded_in_degree_counterexample:
  "erase_node 2 (connected_abc [5, 6]) = Some abc_erased_b \<and>
   begin_to_end abc_erased_b = Some [1, 3] \<and>
   map_option fst (record_nodes abc_erased_b (m_pNodeHead abc_erased_b) ([], [], [], 0)) =
     Some [(1, 0), (3, 2)] \<and>
   num_incoming abc_erased_b [1, 3] 3 = 1 \<and>
   Option.bind (map_option first_in (node_store abc_erased_b 3)) (walk_in abc_erased_b) = Some [6]"
proof -
  have "begin_to_end abc_erased_b = Some [1, 3] \<and>
   map_option fst (record_nodes abc_erased_b (m_pNodeHead abc_erased_b) ([], [], [], 0)) =
     Some [(1, 0), (3, 2)] \<and>
   num_incoming abc_erased_b [1, 3] 3 = 1 \<and>
   Option.bind (map_option first_in (node_store abc_erased_b 3)) (walk_in abc_erased_b) = Some [6]"
    by code_simp
  with abc_erased_b_run show ?thesis by simp
qed

text \<open>
  C4, amended. Line 217 records \<open>getNumOfInputs()\<close>: for every node of the sequence the
  recorded in-degree is the number of its input slots, with or without a live producing
  edge, and the recorded index is its position. When the slots of the graph are linked, the
  recorded in-degree is the number of incoming edges of the node.
\<close>

theorem recorded_in_degree:
  assumes "is_seq g (m_pNodeHead g) ns"
  shows "\<exists>in_degree orig_index queue index.
           record_nodes g (m_pNodeHead g) ([], [], [], 0) = Some (in_degree, orig_index, queue, index) \<and>
           (\<forall>n\<in>set ns. at in_degree n = int (length (inputs_of g n)) \<and>
                        at orig_index n = int (index_of ns n)) \<and>
           (slots_linked g ns \<longrightarrow>
              (\<forall>n\<in>set ns. at in_degree n = int (num_incoming g ns n)))"
proof -
  from record_nodes_counts [OF assms] obtain d oi q k where
    r: "record_nodes g (m_pNodeHead g) ([], [], [], 0) = Some (d, oi, q, k)"
    and L: "\<forall>m\<in>set ns. at d m = int (length (inputs_of g m))"
    and oi: "\<forall>m\<in>set ns. at oi m = int (index_of ns m)"
    by blast
  have both: "\<forall>n\<in>set ns. at d n = int (length (inputs_of g n)) \<and>
                        at oi n = int (index_of ns n)"
    using L oi by simp
  have W: "slots_linked g ns \<longrightarrow> (\<forall>n\<in>set ns. at d n = int (num_incoming g ns n))"
  proof
    assume sl: "slots_linked g ns"
    show "\<forall>n\<in>set ns. at d n = int (num_incoming g ns n)"
    proof
      fix n assume n: "n \<in> set ns"
      then obtain nd where "node_store g n = Some nd"
        using is_seq_live [OF assms] by blast
      then have "numin g n = int (length (inputs_of g n))"
        by (simp add: numin_def getNumOfInputs_def inputs_of_def)
      with in_degree_is_num_incoming [OF assms sl n] L n
      show "at d n = int (num_incoming g ns n)" by simp
    qed
  qed
  from r both W show ?thesis by (intro exI conjI)
qed

theorem recorded_in_degree_witness:
  "\<exists>in_degree orig_index queue index.
     record_nodes fan_in_abc (m_pNodeHead fan_in_abc) ([], [], [], 0) =
       Some (in_degree, orig_index, queue, index) \<and>
     at in_degree 10 = 2 \<and> length (inputs_of fan_in_abc 10) = 2 \<and>
     num_incoming fan_in_abc [30, 20, 10] 10 = 2 \<and> at in_degree 30 = 0"
proof -
  have n: "num_incoming fan_in_abc [30, 20, 10] 10 = 2" "num_incoming fan_in_abc [30, 20, 10] 30 = 0"
    "length (inputs_of fan_in_abc 10) = 2"
    by (simp_all add: num_incoming_def users_def uses_of_outputs_def inputs_of_def
        fan_in_abc_def mk_node_def)
  from recorded_in_degree [OF abc_seq] obtain d oi q k where
    r: "record_nodes fan_in_abc (m_pNodeHead fan_in_abc) ([], [], [], 0) = Some (d, oi, q, k)"
    and a: "slots_linked fan_in_abc [30, 20, 10] \<longrightarrow>
              (\<forall>n\<in>set [30, 20, 10]. at d n = int (num_incoming fan_in_abc [30, 20, 10] n))"
    by (elim exE conjE)
  from a abc_linked have b: "\<forall>n\<in>set [30, 20, 10]. at d n = int (num_incoming fan_in_abc [30, 20, 10] n)"
    by (rule mp)
  have "at d 10 = int (num_incoming fan_in_abc [30, 20, 10] 10)"
       "at d 30 = int (num_incoming fan_in_abc [30, 20, 10] 30)"
    using b by simp_all
  then have "at d 10 = 2" "at d 30 = 0" by (simp_all add: n)
  with r n show ?thesis by (intro exI conjI)
qed

text \<open>
  C5. When the edges of a graph with linked slots contain a cycle, topologicalSort still
  returns and raises nothing, but the extraction loop ends with fewer operators than the
  sequence has: the operators left out are exactly those whose counter is still positive,
  and every operator on a cycle is among them.
\<close>

theorem schedule_drops_cycles:
  assumes "is_seq g (m_pNodeHead g) ns" and "slots_linked g ns" and "\<not> acyclic (edges g ns)"
  shows "\<exists>in_degree out. schedule g = Some (in_degree, out) \<and> topologicalSort g \<noteq> None \<and>
           distinct out \<and> set out \<subset> set ns \<and> length out < length ns \<and>
           (\<forall>n\<in>set ns. n \<notin> set out \<longleftrightarrow> 0 < at in_degree n) \<and>
           (\<forall>n. (n, n) \<in> (edges g ns)\<^sup>+ \<longrightarrow> n \<notin> set out)"
proof -
  from schedule_invariant [OF assms(1,2)] obtain oi d out where
    s: "schedule g = Some (d, out)" and inv: "kahn_inv g ns oi d [] out"
    by blast
  have ret: "topologicalSort g \<noteq> None" using assms(1) inv s by (rule kahn_inv_returns)
  have dout: "distinct out" and sub: "set out \<subseteq> set ns"
    and I3: "\<forall>m\<in>set ns. at d m = int (remaining g ns out m)"
    and I4: "\<forall>m\<in>set ns. (m \<in> set out \<or> m \<in> snd ` set []) \<longleftrightarrow> at d m = 0"
    using inv by (simp_all add: kahn_inv_def)
  have cyc: "\<forall>n. (n, n) \<in> (edges g ns)\<^sup>+ \<longrightarrow> n \<notin> set out"
    using kahn_inv_cycle_dropped [OF inv] by blast
  from assms(3) obtain x where x: "(x, x) \<in> (edges g ns)\<^sup>+"
    unfolding acyclic_def by blast
  have xns: "x \<in> set ns" using x by (rule edges_trancl_in_seq)
  have xout: "x \<notin> set out" using cyc x by blast
  from sub xns xout have ps: "set out \<subset> set ns" by blast
  then have "card (set out) < card (set ns)" by (simp add: psubset_card_mono)
  then have len: "length out < length ns"
    using dout is_seq_distinct [OF assms(1)] by (simp add: distinct_card)
  have pos: "\<forall>n\<in>set ns. n \<notin> set out \<longleftrightarrow> 0 < at d n"
  proof
    fix n assume n: "n \<in> set ns"
    then have "0 \<le> at d n" using I3 by simp
    moreover have "n \<in> set out \<longleftrightarrow> at d n = 0" using I4 n by simp
    ultimately show "n \<notin> set out \<longleftrightarrow> 0 < at d n" by linarith
  qed
  from s ret dout ps len pos cyc show ?thesis by (intro exI conjI)
qed

theorem schedule_drops_cycles_witness:
  "\<exists>in_degree out. schedule two_cycle = Some (in_degree, out) \<and>
     length out < length [1, 2, 3 :: nat] \<and> 1 \<notin> set out \<and> 2 \<notin> set out"
proof -
  have e: "(1, 2) \<in> edges two_cycle [1, 2, 3]" "(2, 1) \<in> edges two_cycle [1, 2, 3]"
    by (simp_all add: edges_def users_def uses_of_outputs_def two_cycle_def mk_node_def)
  have c1: "(1, 1) \<in> (edges two_cycle [1, 2, 3])\<^sup>+"
    using e by (rule trancl_trans [OF r_into_trancl r_into_trancl])
  have c2: "(2, 2) \<in> (edges two_cycle [1, 2, 3])\<^sup>+"
    using e(2) e(1) by (rule trancl_trans [OF r_into_trancl r_into_trancl])
  from schedule_drops_cycles [OF tc_seq tc_linked tc_cyclic] obtain d out where
    s: "schedule two_cycle = Some (d, out)" and l: "length out < length [1, 2, 3 :: nat]"
    and c: "\<forall>n. (n, n) \<in> (edges two_cycle [1, 2, 3])\<^sup>+ \<longrightarrow> n \<notin> set out"
    by (elim exE conjE)
  from c c1 c2 have "1 \<notin> set out" "2 \<notin> set out" by blast+
  with s l show ?thesis by (intro exI conjI)
qed


section \<open>Erasing nodes and arcs\<close>

text \<open>
  C6. Let the edge chains and the sequence be well formed, let \<open>n\<close> be a node of the
  sequence and let the arcs of its two chains be in the arc list. Then erase(n) returns;
  every arc of the fan-in chain and of the fan-out chain of \<open>n\<close> is deleted; \<open>n\<close> is
  deleted and gone from the node list; the sequence is the old one without \<open>n\<close>, forward
  from the head and backward from the rear; and the chains of every surviving node are its
  old chains without the arcs of \<open>n\<close>, none of which has \<open>n\<close> as source or target.
\<close>

theorem erase_node_cascade:
  assumes "chains_ok g ins outs" and "seq_ok g ns" and "n \<in> set ns"
    and "set (ins n) \<union> set (outs n) \<subseteq> set (m_ArcList g)"
  shows "\<exists>g'. erase_node n g = Some g' \<and>
           (\<forall>a\<in>set (ins n) \<union> set (outs n). arc_store g' a = None) \<and>
           node_store g' n = None \<and> n \<notin> m_NodeList g' \<and>
           seq_ok g' (remove1 n ns) \<and> begin_to_end g' = Some (remove1 n ns) \<and>
           rear_to_head g' = Some (rev (remove1 n ns)) \<and>
           (\<forall>m nd. node_store g' m = Some nd \<longrightarrow>
              walk_in g' (first_in nd) =
                Some (filter (\<lambda>b. b \<notin> set (ins n) \<union> set (outs n)) (ins m)) \<and>
              walk_out g' (first_out nd) =
                Some (filter (\<lambda>b. b \<notin> set (ins n) \<union> set (outs n)) (outs m)) \<and>
              (\<forall>a\<in>set (filter (\<lambda>b. b \<notin> set (ins n) \<union> set (outs n)) (ins m)) \<union>
                    set (filter (\<lambda>b. b \<notin> set (ins n) \<union> set (outs n)) (outs m)).
                 \<exists>r. arc_store g' a = Some r \<and> source r \<noteq> n \<and> target r \<noteq> n))"
proof -
  let ?X = "set (ins n) \<union> set (outs n)"
  let ?ins = "\<lambda>m. if m = n then [] else filter (\<lambda>b. b \<notin> ?X) (ins m)"
  let ?outs = "\<lambda>m. if m = n then [] else filter (\<lambda>b. b \<notin> ?X) (outs m)"
  from erase_node_correct [OF assms(1,2,3)] obtain g' where
    run: "erase_node n g = Some g'" and sq: "seq_ok g' (remove1 n ns)"
    and ch: "chains_ok g' ?ins ?outs"
    and nn: "node_store g' n = None" and nl: "m_NodeList g' = m_NodeList g - {n}"
    and av: "\<forall>y. (arc_store g' y = None) =
                (arc_store g y = None \<or> y \<in> ?X \<and> y \<in> set (m_ArcList g))"
    by blast
  have del: "\<forall>a\<in>?X. arc_store g' a = None" using av assms(4) by blast
  have nnl: "n \<notin> m_NodeList g'" using nl by simp
  have surv: "walk_in g' (first_in nd) = Some (filter (\<lambda>b. b \<notin> ?X) (ins m)) \<and>
              walk_out g' (first_out nd) = Some (filter (\<lambda>b. b \<notin> ?X) (outs m)) \<and>
              (\<forall>a\<in>set (filter (\<lambda>b. b \<notin> ?X) (ins m)) \<union> set (filter (\<lambda>b. b \<notin> ?X) (outs m)).
                 \<exists>r. arc_store g' a = Some r \<and> source r \<noteq> n \<and> target r \<noteq> n)"
    if nd: "node_store g' m = Some nd" for m nd
  proof -
    have mn: "m \<noteq> n" using nd nn by auto
    have "dlseg (arc_store g') prev_in next_in None (first_in nd) (?ins m) None"
      using ch nd by (rule chains_ok_in)
    then have wi: "walk_in g' (first_in nd) = Some (filter (\<lambda>b. b \<notin> ?X) (ins m))"
      using mn walk_in_dlseg by simp
    have "dlseg (arc_store g') prev_out next_out None (first_out nd) (?outs m) None"
      using ch nd by (rule chains_ok_out)
    then have wo: "walk_out g' (first_out nd) = Some (filter (\<lambda>b. b \<notin> ?X) (outs m))"
      using mn walk_out_dlseg by simp
    have ai: "\<exists>r. arc_store g' a = Some r \<and> source r \<noteq> n \<and> target r \<noteq> n"
      if "a \<in> set (filter (\<lambda>b. b \<notin> ?X) (ins m))" for a
    proof -
      from that mn have "a \<in> set (?ins m)" by simp
      from chains_ok_BI [OF ch this] obtain r where
        r: "arc_store g' a = Some r" "target r = m" "a \<in> set (?outs (source r))"
        by blast
      from r(3) have "source r \<noteq> n" by (auto split: if_splits)
      with r mn show ?thesis by simp
    qed
    have ao: "\<exists>r. arc_store g' a = Some r \<and> source r \<noteq> n \<and> target r \<noteq> n"
      if "a \<in> set (filter (\<lambda>b. b \<notin> ?X) (outs m))" for a
    proof -
      from that mn have "a \<in> set (?outs m)" by simp
      from chains_ok_BO [OF ch this] obtain r where
        r: "arc_store g' a = Some r" "source r = m" "a \<in> set (?ins (target r))"
        by blast
      from r(3) have "target r \<noteq> n" by (auto split: if_splits)
      with r mn show ?thesis by simp
    qed
    from wi wo ai ao show ?thesis by blast
  qed
  have surv': "\<forall>m nd. node_store g' m = Some nd \<longrightarrow>
              walk_in g' (first_in nd) = Some (filter (\<lambda>b. b \<notin> ?X) (ins m)) \<and>
              walk_out g' (first_out nd) = Some (filter (\<lambda>b. b \<notin> ?X) (outs m)) \<and>
              (\<forall>a\<in>set (filter (\<lambda>b. b \<notin> ?X) (ins m)) \<union> set (filter (\<lambda>b. b \<notin> ?X) (outs m)).
                 \<exists>r. arc_store g' a = Some r \<and> source r \<noteq> n \<and> target r \<noteq> n)"
    using surv by blast
  from run del nn nnl sq seq_ok_traversals [OF sq] surv' show ?thesis
    by (intro exI [of _ g'] conjI)
qed

theorem erase_node_cascade_witness:
  "\<exists>g'. erase_node 2 (connected_abc [5, 6]) = Some g' \<and> arc_store g' 5 = None \<and>
        node_store g' 2 = None \<and> begin_to_end g' = Some [1, 3] \<and>
        (\<exists>nd. node_store g' 3 = Some nd \<and> walk_in g' (first_in nd) = Some [6])"
proof -
  have n: "2 \<in> set [1, 2, 3 :: nat]" by simp
  have l: "set (abc_ins 2) \<union> set (abc_outs 2) \<subseteq> set (m_ArcList (connected_abc [5, 6]))"
    by (simp add: abc_ins_def abc_outs_def connected_abc_def)
  from erase_node_cascade [OF connected_abc_chains connected_abc_seq n l] obtain g' where
    run: "erase_node 2 (connected_abc [5, 6]) = Some g'"
    and del: "\<forall>a\<in>set (abc_ins 2) \<union> set (abc_outs 2). arc_store g' a = None"
    and nn: "node_store g' 2 = None"
    and tr: "begin_to_end g' = Some (remove1 2 [1, 2, 3])"
    and surv: "\<forall>m nd. node_store g' m = Some nd \<longrightarrow>
              walk_in g' (first_in nd) =
                Some (filter (\<lambda>b. b \<notin> set (abc_ins 2) \<union> set (abc_outs 2)) (abc_ins m))"
    by blast
  have "Option.bind (erase_node 2 (connected_abc [5, 6]))
          (\<lambda>g. map_option (\<lambda>_. True) (node_store g 3)) = Some True"
    by code_simp
  with run obtain nd where nd: "node_store g' 3 = Some nd" by auto
  with surv have "walk_in g' (first_in nd) =
      Some (filter (\<lambda>b. b \<notin> set (abc_ins 2) \<union> set (abc_outs 2)) (abc_ins 3))" by blast
  then have "walk_in g' (first_in nd) = Some [6]" by (simp add: abc_ins_def abc_outs_def)
  moreover have "arc_store g' 5 = None" using del by (simp add: abc_ins_def abc_outs_def)
  ultimately show ?thesis using run nn tr nd by simp
qed



text \<open>
  C7. From a graph that satisfies the invariants, any sequence of inserts and erases that
  returns leads to a graph that satisfies them: the sequence has no repetition and holds
  the nodes of the node list; the walk forward from the head visits it and the walk backward
  from the rear visits its reverse; the head is the only node without \<open>prev\<close>, the rear the
  only node without \<open>next\<close>; and \<open>prev->next\<close> and \<open>next->prev\<close> of a node are the node.
\<close>

theorem sequence_invariant:
  assumes "graph_inv g ns" and "apply_edits es g = Some g'"
  shows "\<exists>ns'. graph_inv g' ns' \<and> distinct ns' \<and> set ns' = m_NodeList g' \<and>
           begin_to_end g' = Some ns' \<and> rear_to_head g' = Some (rev ns') \<and>
           (ns' = [] \<longrightarrow> m_pNodeHead g' = None \<and> m_pNodeRear g' = None) \<and>
           (ns' \<noteq> [] \<longrightarrow>
              (\<exists>!n. n \<in> set ns' \<and> map_option prev (node_store g' n) = Some None) \<and>
              (\<exists>!n. n \<in> set ns' \<and> map_option nxt (node_store g' n) = Some None)) \<and>
           (\<forall>n\<in>set ns'. \<exists>nd. node_store g' n = Some nd \<and>
              (prev nd = None \<longleftrightarrow> m_pNodeHead g' = Some n) \<and>
              (nxt nd = None \<longleftrightarrow> m_pNodeRear g' = Some n) \<and>
              (\<forall>p. prev nd = Some p \<longrightarrow>
                 p \<in> set ns' \<and> (\<exists>pd. node_store g' p = Some pd \<and> nxt pd = Some n)) \<and>
              (\<forall>q. nxt nd = Some q \<longrightarrow>
                 q \<in> set ns' \<and> (\<exists>qd. node_store g' q = Some qd \<and> prev qd = Some n)))"
proof -
  from apply_edits_inv [OF assms] obtain ns' where inv: "graph_inv g' ns'" by blast
  then have sq: "seq_ok g' ns'" and nl: "set ns' = m_NodeList g'"
    by (simp_all add: graph_inv_def)
  have d: "distinct ns'" using sq by (rule seq_ok_distinct)
  have seg: "dlseg (node_store g') prev nxt None (m_pNodeHead g') ns' None"
    and rear: "m_pNodeRear g' = (if ns' = [] then None else Some (last ns'))"
    using sq by (simp_all add: seq_ok_def)
  have loc: "\<forall>n\<in>set ns'. \<exists>nd. node_store g' n = Some nd \<and>
              (prev nd = None \<longleftrightarrow> m_pNodeHead g' = Some n) \<and>
              (nxt nd = None \<longleftrightarrow> m_pNodeRear g' = Some n) \<and>
              (\<forall>p. prev nd = Some p \<longrightarrow>
                 p \<in> set ns' \<and> (\<exists>pd. node_store g' p = Some pd \<and> nxt pd = Some n)) \<and>
              (\<forall>q. nxt nd = Some q \<longrightarrow>
                 q \<in> set ns' \<and> (\<exists>qd. node_store g' q = Some qd \<and> prev qd = Some n))"
    using seq_ok_local [OF sq] by blast
  have emp: "ns' = [] \<longrightarrow> m_pNodeHead g' = None \<and> m_pNodeRear g' = None"
    using seg rear by auto
  have one: "(\<exists>!n. n \<in> set ns' \<and> map_option prev (node_store g' n) = Some None) \<and>
             (\<exists>!n. n \<in> set ns' \<and> map_option nxt (node_store g' n) = Some None)"
    if ne: "ns' \<noteq> []"
  proof -
    have h: "m_pNodeHead g' = Some (hd ns')" using seg ne by (rule dlseg_head)
    have r: "m_pNodeRear g' = Some (last ns')" using rear ne by simp
    have p: "(map_option prev (node_store g' n) = Some None) = (n = hd ns')" if "n \<in> set ns'" for n
    proof -
      from seq_ok_local [OF sq that] obtain nd where
        "node_store g' n = Some nd" "(prev nd = None) = (m_pNodeHead g' = Some n)"
        by (elim exE conjE)
      then show ?thesis using h by auto
    qed
    have q: "(map_option nxt (node_store g' n) = Some None) = (n = last ns')" if "n \<in> set ns'" for n
    proof -
      from seq_ok_local [OF sq that] obtain nd where
        "node_store g' n = Some nd" "(nxt nd = None) = (m_pNodeRear g' = Some n)"
        by (elim exE conjE)
      then show ?thesis using r by auto
    qed
    have "hd ns' \<in> set ns'" "last ns' \<in> set ns'" using ne by simp_all
    then have "\<exists>!n. n \<in> set ns' \<and> map_option prev (node_store g' n) = Some None"
      "\<exists>!n. n \<in> set ns' \<and> map_option nxt (node_store g' n) = Some None"
      using p q by (metis (no_types, lifting))+
    then show ?thesis by (rule conjI)
  qed
  then have one': "ns' \<noteq> [] \<longrightarrow>
              (\<exists>!n. n \<in> set ns' \<and> map_option prev (node_store g' n) = Some None) \<and>
              (\<exists>!n. n \<in> set ns' \<and> map_option nxt (node_store g' n) = Some None)"
    by (rule impI)
  from inv d nl seq_ok_traversals [OF sq] emp one' loc show ?thesis
    by (intro exI [of _ ns'] conjI)
qed

theorem sequence_invariant_witness:
  "graph_inv empty_graph [] \<and>
   (\<exists>g' ns'. apply_edits [Insert 1, Insert 2, Insert 3, Erase 2, Insert 4, Erase 1] empty_graph = Some g' \<and>
      begin_to_end g' = Some ns' \<and> rear_to_head g' = Some (rev ns') \<and> ns' = [3, 4])"
proof -
  let ?es = "[Insert 1, Insert 2, Insert 3, Erase 2, Insert 4, Erase 1]"
  have r: "Option.bind (apply_edits ?es empty_graph) begin_to_end = Some [3, 4]"
    by code_simp
  then obtain g' where g': "apply_edits ?es empty_graph = Some g'"
    by (cases "apply_edits ?es empty_graph") auto
  from sequence_invariant [OF empty_graph_inv g'] obtain ns' where
    "begin_to_end g' = Some ns'" "rear_to_head g' = Some (rev ns')"
    by blast
  moreover from this r g' have "ns' = [3, 4]" by simp
  ultimately show ?thesis using g' empty_graph_inv by blast
qed

end
